theory Spec2Isabelle
  imports Main
begin

section \<open>Kawasaki backup client: the protocol engine of \<^verbatim>\<open>kawasaki_backup_client.py\<close>\<close>

text \<open>
  The model follows \<^verbatim>\<open>KawasakiBackupClient.run\<close> and \<^verbatim>\<open>_recv_until\<close>. Bytes are
  \<^typ>\<open>char\<close> (a \<^typ>\<open>char\<close> is one byte), Python integers are \<^typ>\<open>int\<close>. The socket is
  the environment: a script of moments, one for every \<^verbatim>\<open>sock.recv\<close> call, says what this
  call returns or raises and what the cancellation flag holds when the streaming loop
  looks at it. A script that ends while the code is blocked in \<^verbatim>\<open>recv\<close> gives the outcome
  \<open>Blocked\<close>. Writes to the two files are assumed to succeed.
\<close>

subsection \<open>Protocol constants\<close>

type_synonym bytes = "char list"

definition CR :: char where "CR = CHR 0x0D"
definition LF :: char where "LF = CHR 0x0A"
definition ETB :: char where "ETB = CHR 0x17"

definition START_HEADER :: bytes where
  "START_HEADER = [CHR 0x05, CHR 0x02, CHR ''B'']"

definition SECOND_HEADER :: bytes where
  "SECOND_HEADER = [CHR 0x02, CHR ''B'', CHR '' '', CHR '' '', CHR '' '', CHR '' '', CHR ''0'', CHR 0x17]"

definition ACK_BYTE :: bytes where
  "ACK_BYTE = [CHR 0x06]"

text \<open>The literal part \<^verbatim>\<open>\x05\x02D\<close> of \<^verbatim>\<open>DATA_REC_REGEX\<close>.\<close>

definition REC_MARKER :: bytes where
  "REC_MARKER = [CHR 0x05, CHR 0x02, CHR ''D'']"

definition EOT_MARKER :: bytes where
  "EOT_MARKER = [CHR 0x05, CHR 0x02, CHR ''E'', CHR 0x17]"

definition SAVELOAD_IN_PROGRESS :: bytes where
  "SAVELOAD_IN_PROGRESS = ''SAVE/LOAD in progress''"

definition DEFAULT_PROGRESS_INTERVAL :: int where
  "DEFAULT_PROGRESS_INTERVAL = 10 * 1024"

subsection \<open>Byte searches\<close>

text \<open>\<^verbatim>\<open>pat in buf\<close> for byte strings: \<open>pat\<close> occurs as a contiguous slice of \<open>buf\<close>.\<close>

fun contains :: "bytes \<Rightarrow> bytes \<Rightarrow> bool" where
  "contains pat [] = (pat = [])"
| "contains pat (c # cs) = (take (length pat) (c # cs) = pat \<or> contains pat cs)"

text \<open>
  \<^verbatim>\<open>DATA_REC_REGEX = (?:\x17)?\x05\x02D[^\r\n]*\r\<close>. \<open>body_end\<close> is the tail
  \<^verbatim>\<open>[^\r\n]*\r\<close> anchored at the head of the list and gives the number of bytes it
  matches: the star takes every byte that is neither CR nor LF, and the next byte has to
  be CR (giving bytes back to the star never helps, since the star took no CR).
\<close>

fun body_end :: "bytes \<Rightarrow> nat option" where
  "body_end [] = None"
| "body_end (c # cs) =
     (if c = CR then Some 1
      else if c = LF then None
      else map_option Suc (body_end cs))"

text \<open>
  The whole expression anchored at the head of the list: the optional \<^verbatim>\<open>\x17\<close> is tried
  first, and the alternative without it when that fails. The result is the length of the
  match.
\<close>

definition match_here :: "bytes \<Rightarrow> nat option" where
  "match_here bs =
     (case (if take 4 bs = ETB # REC_MARKER
            then map_option (\<lambda>n. 4 + n) (body_end (drop 4 bs)) else None) of
        Some n \<Rightarrow> Some n
      | None \<Rightarrow>
          (if take 3 bs = REC_MARKER
           then map_option (\<lambda>n. 3 + n) (body_end (drop 3 bs)) else None))"

text \<open>
  \<^verbatim>\<open>DATA_REC_REGEX.search(buffer)\<close>: the leftmost start position with a match;
  the result is \<^verbatim>\<open>(m.start(), m.end())\<close>.
\<close>

fun search_rec :: "bytes \<Rightarrow> (nat \<times> nat) option" where
  "search_rec [] = None"
| "search_rec (c # cs) =
     (case match_here (c # cs) of
        Some n \<Rightarrow> Some (0, n)
      | None \<Rightarrow> map_option (\<lambda>(s, e). (Suc s, Suc e)) (search_rec cs))"

subsection \<open>Environment, effects and state\<close>

text \<open>
  Exceptions: \<^verbatim>\<open>socket.timeout\<close>, any other exception of the transport (with an
  identifier of the underlying error), and the two \<^verbatim>\<open>Exception(msg)\<close> that \<^verbatim>\<open>run\<close> raises
  itself. The specification names them HandshakeTimeout (a \<^verbatim>\<open>socket.timeout\<close> inside a
  wait step), TransportFailure and ConnectFailure, DeviceBusy and CancelledByUser.
\<close>

datatype exn = SocketTimeout | TransportError nat | BackupInProgress | BackupCancelled

datatype recv_result = Data bytes | RecvRaises exn

datatype moment = Moment (cancel_requested: bool) (arrival: recv_result)

datatype phase = LoginWait | AuxWait | HeaderWait | Streaming

datatype outcome = Returned | Raised exn | Blocked phase

text \<open>The texts handed to \<^verbatim>\<open>_emit_status\<close>, one constructor for each format string.\<close>

datatype status =
    Connecting int
  | ConnectRetry
  | ConnectedWaitLogin
  | SendingLogin
  | WaitingAux
  | IssuingSave
  | WaitingHeader
  | InProgressAbort
  | HandshakeAck
  | ReceivingRecords
  | BackupComplete

text \<open>
  What the engine does to the outside, in order. \<open>Progress v t\<close> is the call
  \<^verbatim>\<open>_emit_progress(v)\<close>; its second component is not passed to the callback: it records
  the value of \<^verbatim>\<open>total_written\<close> at the moment of the call, so that a property of that
  moment can be stated.
\<close>

datatype effect =
    Status status
  | Progress int int
  | Error exn
  | Complete
  | SleepRetry
  | SleepAck
  | Sent bytes
  | SocketClosed

record state =
  out_file :: bytes
  dbg_file :: bytes
  trace :: "effect list"
  buffer :: bytes
  total_written :: int
  last_report :: int

definition init_state :: state where
  "init_state = \<lparr>out_file = [], dbg_file = [], trace = [], buffer = [],
                 total_written = 0, last_report = 0\<rparr>"

subsection \<open>The streaming loop\<close>

text \<open>
  \<^verbatim>\<open>while total_written >= last_report + self.progress_interval:\<close> with its body.
  With an interval that is not positive the loop never ends once it is entered, and the
  value is \<open>None\<close>.
\<close>

partial_function (option) progress_while :: "int \<Rightarrow> state \<Rightarrow> state option" where
  "progress_while interval st =
     (if total_written st \<ge> last_report st + interval
      then progress_while interval
             (st\<lparr>last_report := last_report st + interval,
                 trace := trace st @ [Progress (last_report st + interval) (total_written st)]\<rparr>)
      else Some st)"

text \<open>\<^verbatim>\<open>rec[4:] if rec.startswith(b'\x17') else rec[3:]\<close>, then the CR made CRLF.\<close>

definition payload_of :: "bytes \<Rightarrow> bytes" where
  "payload_of rec =
     (let payload = (if take 1 rec = [ETB] then drop 4 rec else drop 3 rec)
      in if payload \<noteq> [] \<and> last payload = CR then butlast payload @ [CR, LF] else payload)"

lemma body_end_bounds: "body_end bs = Some n \<Longrightarrow> 0 < n \<and> n \<le> length bs"
  by (induction bs arbitrary: n) (auto split: if_splits)

lemma match_here_bounds: "match_here bs = Some n \<Longrightarrow> 0 < n \<and> n \<le> length bs"
  by (auto simp: match_here_def split: option.splits if_splits dest!: body_end_bounds)

lemma search_rec_bounds: "search_rec bs = Some (s, e) \<Longrightarrow> s < e \<and> e \<le> length bs"
  by (induction bs arbitrary: s e) (auto split: option.splits dest!: match_here_bounds)

text \<open>
  The inner \<^verbatim>\<open>while True\<close> that parses records out of the buffer: it ends when the
  expression no longer matches.
\<close>

function drain :: "int \<Rightarrow> state \<Rightarrow> state option" where
  "drain interval st =
     (case search_rec (buffer st) of
        None \<Rightarrow> Some st
      | Some (s, e) \<Rightarrow>
          (let payload = payload_of (take (e - s) (drop s (buffer st)))
           in case progress_while interval
                     (st\<lparr>out_file := out_file st @ payload,
                         total_written := total_written st + int (length payload)\<rparr>) of
                None \<Rightarrow> None
              | Some st' \<Rightarrow> drain interval (st'\<lparr>buffer := drop e (buffer st)\<rparr>)))"
  by pat_completeness auto
termination
  by (relation "measure (\<lambda>(i, st). length (buffer st))")
     (auto dest!: search_rec_bounds)

declare drain.simps [simp del]

text \<open>One pass of the outer loop after the read: the chunk is appended, then the buffer drained.\<close>

definition feed :: "int \<Rightarrow> bytes \<Rightarrow> state \<Rightarrow> state option" where
  "feed interval chunk st =
     drain interval
       (if chunk \<noteq> [] then st\<lparr>dbg_file := dbg_file st @ chunk, buffer := buffer st @ chunk\<rparr>
        else st)"

text \<open>
  The outer \<^verbatim>\<open>while True\<close>: the cancellation flag, the read (a \<^verbatim>\<open>socket.timeout\<close> gives
  the empty chunk, any other exception leaves the loop), the drain, the test for the end
  marker.
\<close>

fun stream_loop :: "int \<Rightarrow> moment list \<Rightarrow> state \<Rightarrow> (outcome \<times> state) option" where
  "stream_loop interval [] st = Some (Blocked Streaming, st)"
| "stream_loop interval (m # ms) st =
     (if cancel_requested m then Some (Raised BackupCancelled, st)
      else case (case arrival m of
                   Data chunk \<Rightarrow> Inr chunk
                 | RecvRaises e \<Rightarrow> if e = SocketTimeout then Inr [] else Inl e) of
             Inl e \<Rightarrow> Some (Raised e, st)
           | Inr chunk \<Rightarrow>
               (case feed interval chunk st of
                  None \<Rightarrow> None
                | Some st' \<Rightarrow>
                    if contains EOT_MARKER (buffer st') then Some (Returned, st')
                    else stream_loop interval ms st'))"

subsection \<open>The handshake\<close>

text \<open>
  The patterns of the three wait steps, each as the test \<^verbatim>\<open>pattern.search(buf)\<close>:
  \<^verbatim>\<open>login:\<close>, \<^verbatim>\<open>AUX\d\<close> (in a bytes pattern \<^verbatim>\<open>\d\<close> is an ASCII digit), and the
  alternative of \<^verbatim>\<open>SAVE/LOAD in progress\<close> and the escaped, hence literal, header
  \<^verbatim>\<open>START_HEADER + safe_name + b'.' + b'as' + b'\x17'\<close>.
\<close>

definition search_login :: "bytes \<Rightarrow> bool" where
  "search_login buf = contains ''login:'' buf"

definition is_digit :: "char \<Rightarrow> bool" where
  "is_digit c \<longleftrightarrow> c \<in> set ''0123456789''"

fun search_aux :: "bytes \<Rightarrow> bool" where
  "search_aux (a # b # c # d # cs) =
     ((a = CHR ''A'' \<and> b = CHR ''U'' \<and> c = CHR ''X'' \<and> is_digit d) \<or> search_aux (b # c # d # cs))"
| "search_aux cs = False"

definition header_marker :: "bytes \<Rightarrow> bytes" where
  "header_marker safe_name = START_HEADER @ safe_name @ ''.'' @ ''as'' @ [ETB]"

definition search_combined :: "bytes \<Rightarrow> bytes \<Rightarrow> bool" where
  "search_combined safe_name buf \<longleftrightarrow>
     contains SAVELOAD_IN_PROGRESS buf \<or> contains (header_marker safe_name) buf"

text \<open>
  \<^verbatim>\<open>_recv_until\<close>: read until the pattern is found in the accumulated bytes. A read that
  raises ends the wait with this exception (there is no \<^verbatim>\<open>try\<close> around \<^verbatim>\<open>sock.recv\<close>
  here); a read of zero bytes leaves the loop by \<^verbatim>\<open>break\<close> and the bytes so far are
  returned. The result carries the rest of the script.
\<close>

datatype recv_outcome =
    RecvDone bytes state "moment list"
  | RecvRaised exn state
  | RecvBlocked state

fun recv_until :: "(bytes \<Rightarrow> bool) \<Rightarrow> bytes \<Rightarrow> state \<Rightarrow> moment list \<Rightarrow> recv_outcome" where
  "recv_until pat buf st [] = (if pat buf then RecvDone buf st [] else RecvBlocked st)"
| "recv_until pat buf st (m # ms) =
     (if pat buf then RecvDone buf st (m # ms)
      else case arrival m of
             RecvRaises e \<Rightarrow> RecvRaised e st
           | Data chunk \<Rightarrow>
               if chunk = [] then RecvDone buf st ms
               else recv_until pat (buf @ chunk) (st\<lparr>dbg_file := dbg_file st @ chunk\<rparr>) ms)"

text \<open>
  The configuration, as far as the engine's behaviour depends on it (address, port and
  the values of the timeouts only appear in texts and as arguments of the socket).
  \<open>username\<close> is the encoded user name; a character of \<open>base_name\<close> is a \<^typ>\<open>char\<close>.
\<close>

record config =
  username :: bytes
  base_name :: string
  full :: bool
  progress_interval :: int
  connect_retries :: int

text \<open>
  The environment: what the call of \<^verbatim>\<open>sock.connect\<close> of each attempt does (\<open>None\<close>: it
  returns), what the \<open>k\<close>-th \<^verbatim>\<open>sock.sendall\<close> does, and the script of the reads.
\<close>

record env =
  connects :: "int \<Rightarrow> exn option"
  sends :: "nat \<Rightarrow> exn option"
  moments :: "moment list"

datatype step = Continue bytes state "moment list" | Stop outcome state

definition emit :: "effect \<Rightarrow> state \<Rightarrow> state" where
  "emit e st = st\<lparr>trace := trace st @ [e]\<rparr>"

definition sendall :: "env \<Rightarrow> nat \<Rightarrow> bytes \<Rightarrow> state \<Rightarrow> exn + state" where
  "sendall ev k bs st = (case sends ev k of Some e \<Rightarrow> Inl e | None \<Rightarrow> Inr (emit (Sent bs) st))"

definition wait_for :: "phase \<Rightarrow> (bytes \<Rightarrow> bool) \<Rightarrow> state \<Rightarrow> moment list \<Rightarrow> step" where
  "wait_for ph pat st ms =
     (case recv_until pat [] st ms of
        RecvDone buf st' rest \<Rightarrow> Continue buf st' rest
      | RecvRaised e st' \<Rightarrow> Stop (Raised e) st'
      | RecvBlocked st' \<Rightarrow> Stop (Blocked ph) st')"

text \<open>\<^verbatim>\<open>re.sub(r'[^A-Za-z0-9_.-]', '_', self.base_name)\<close>\<close>

definition safe_alphabet :: string where
  "safe_alphabet = ''ABCDEFGHIJKLMNOPQRSTUVWXYZabcdefghijklmnopqrstuvwxyz0123456789_.-''"

definition sanitize :: "string \<Rightarrow> bytes" where
  "sanitize name = map (\<lambda>c. if c \<in> set safe_alphabet then c else CHR ''_'') name"

text \<open>\<^verbatim>\<open>f"SAVE{'/Full' if self.full else ''} {safe_name}\r\n".encode()\<close>\<close>

definition save_command :: "config \<Rightarrow> bytes" where
  "save_command cfg =
     ''SAVE'' @ (if full cfg then ''/Full'' else []) @ '' '' @ sanitize (base_name cfg) @ [CR, LF]"

text \<open>
  The connect loop, \<^verbatim>\<open>for attempt in range(1, self.connect_retries + 1)\<close>. The result
  is the exception that leaves \<^verbatim>\<open>run\<close>, if any.
\<close>

fun connect_loop :: "(int \<Rightarrow> exn option) \<Rightarrow> int \<Rightarrow> int list \<Rightarrow> state \<Rightarrow> exn option \<times> state" where
  "connect_loop conn retries [] st = (None, st)"
| "connect_loop conn retries (attempt # rest) st =
     (let st1 = emit (Status (Connecting attempt)) st
      in case conn attempt of
           None \<Rightarrow> (None, st1)
         | Some e \<Rightarrow>
             if attempt < retries
             then connect_loop conn retries rest (emit SleepRetry (emit (Status ConnectRetry) st1))
             else (Some e, emit (Error e) st1))"

definition connect :: "config \<Rightarrow> env \<Rightarrow> state \<Rightarrow> exn option \<times> state" where
  "connect cfg ev st = connect_loop (connects ev) (connect_retries cfg) [1..connect_retries cfg] st"

text \<open>
  The body of the \<^verbatim>\<open>try\<close> up to the return of the third wait: the two files are
  opened with mode \<^verbatim>\<open>wb\<close>, hence empty; then login, AUX prompt, the SAVE command and
  the wait for the header or the busy message.
\<close>

definition await_header :: "config \<Rightarrow> env \<Rightarrow> state \<Rightarrow> step" where
  "await_header cfg ev st0 =
     (let st1 = emit (Status SendingLogin)
                  ((emit (Status ConnectedWaitLogin) st0)\<lparr>out_file := [], dbg_file := []\<rparr>)
      in case sendall ev 0 (username cfg @ [CR, LF]) st1 of
           Inl e \<Rightarrow> Stop (Raised e) st1
         | Inr st2 \<Rightarrow>
             (case wait_for LoginWait search_login st2 (moments ev) of
                Stop r st3 \<Rightarrow> Stop r st3
              | Continue buf1 st3 ms1 \<Rightarrow>
                  (case wait_for AuxWait search_aux (emit (Status WaitingAux) st3) ms1 of
                     Stop r st4 \<Rightarrow> Stop r st4
                   | Continue buf2 st4 ms2 \<Rightarrow>
                       (let st5 = emit (Status IssuingSave) st4
                        in case sendall ev 1 (save_command cfg) st5 of
                             Inl e \<Rightarrow> Stop (Raised e) st5
                           | Inr st6 \<Rightarrow>
                               wait_for HeaderWait (search_combined (sanitize (base_name cfg)))
                                 (emit (Status WaitingHeader) st6) ms2))))"

text \<open>
  After the header wait: the busy test, the acknowledgement with the secondary header,
  and the streaming loop with its three variables set up.
\<close>

definition after_header :: "config \<Rightarrow> env \<Rightarrow> bytes \<Rightarrow> state \<Rightarrow> moment list \<Rightarrow> (outcome \<times> state) option" where
  "after_header cfg ev buf st ms =
     (if contains SAVELOAD_IN_PROGRESS buf
      then Some (Raised BackupInProgress, emit (Status InProgressAbort) st)
      else
        (let st1 = emit (Status HandshakeAck) st
         in case sendall ev 2 ACK_BYTE st1 of
              Inl e \<Rightarrow> Some (Raised e, st1)
            | Inr st2 \<Rightarrow>
                (let st3 = emit SleepAck st2
                 in case sendall ev 3 SECOND_HEADER st3 of
                      Inl e \<Rightarrow> Some (Raised e, st3)
                    | Inr st4 \<Rightarrow>
                        (case stream_loop (progress_interval cfg) ms
                                ((emit (Status ReceivingRecords) st4)
                                   \<lparr>buffer := [], total_written := 0, last_report := 0\<rparr>) of
                           None \<Rightarrow> None
                         | Some (r, st5) \<Rightarrow>
                             (case r of
                                Returned \<Rightarrow>
                                  Some (Returned, emit Complete (emit (Status BackupComplete) st5))
                              | Raised e \<Rightarrow> Some (Raised e, st5)
                              | Blocked ph \<Rightarrow> Some (Blocked ph, st5))))))"

definition session :: "config \<Rightarrow> env \<Rightarrow> state \<Rightarrow> (outcome \<times> state) option" where
  "session cfg ev st0 =
     (case await_header cfg ev st0 of
        Stop r st \<Rightarrow> Some (r, st)
      | Continue buf st ms \<Rightarrow> after_header cfg ev buf st ms)"

text \<open>
  \<^verbatim>\<open>run\<close>: an exception of the last connect attempt leaves \<^verbatim>\<open>run\<close> before the \<^verbatim>\<open>try\<close>
  is entered; an exception of the session is reported by \<^verbatim>\<open>_emit_error\<close> and raised
  again, and \<^verbatim>\<open>finally\<close> closes the socket. While the session is blocked in a read
  nothing of this has happened yet.
\<close>

definition run :: "config \<Rightarrow> env \<Rightarrow> (outcome \<times> state) option" where
  "run cfg ev =
     (case connect cfg ev init_state of
        (Some e, st) \<Rightarrow> Some (Raised e, st)
      | (None, st) \<Rightarrow>
          (case session cfg ev st of
             None \<Rightarrow> None
           | Some (r, st') \<Rightarrow>
               (case r of
                  Returned \<Rightarrow> Some (Returned, emit SocketClosed st')
                | Raised e \<Rightarrow> Some (Raised e, emit SocketClosed (emit (Error e) st'))
                | Blocked ph \<Rightarrow> Some (Blocked ph, st'))))"

section \<open>The words of the claims\<close>

text \<open>
  A well-formed record, in the words of the specification: an optional one-byte escape
  prefix \<^verbatim>\<open>\x17\<close>, the marker \<^verbatim>\<open>\x05\x02D\<close>, payload bytes that are not newline bytes, a
  carriage return. A record is given by the flag of the prefix and the payload bytes;
  its decoded payload ends in CRLF. A well-formed stream is the records one after the
  other and then the end-of-transfer marker.
\<close>

definition well_formed_record :: "bool \<times> bytes \<Rightarrow> bool" where
  "well_formed_record r \<longleftrightarrow> CR \<notin> set (snd r) \<and> LF \<notin> set (snd r)"

definition encode_record :: "bool \<times> bytes \<Rightarrow> bytes" where
  "encode_record r = (if fst r then [ETB] else []) @ REC_MARKER @ snd r @ [CR]"

definition decoded_payload :: "bool \<times> bytes \<Rightarrow> bytes" where
  "decoded_payload r = snd r @ [CR, LF]"

definition transport_stream :: "(bool \<times> bytes) list \<Rightarrow> bytes" where
  "transport_stream rs = concat (map encode_record rs) @ EOT_MARKER"

text \<open>The payload of the record does not hold the four bytes of the end marker.\<close>

definition eot_free :: "bool \<times> bytes \<Rightarrow> bool" where
  "eot_free r \<longleftrightarrow> \<not> contains EOT_MARKER (snd r)"

text \<open>
  The bytes a script delivers, and a moment that neither cancels nor fails: the flag is
  down and the read returns bytes (possibly none) or times out.
\<close>

definition chunk_of :: "moment \<Rightarrow> bytes" where
  "chunk_of m = (case arrival m of Data c \<Rightarrow> c | RecvRaises e \<Rightarrow> [])"

definition delivered :: "moment list \<Rightarrow> bytes" where
  "delivered ms = concat (map chunk_of ms)"

definition quiet :: "moment \<Rightarrow> bool" where
  "quiet m \<longleftrightarrow> \<not> cancel_requested m \<and>
     (case arrival m of Data c \<Rightarrow> True | RecvRaises e \<Rightarrow> e = SocketTimeout)"

text \<open>The progress notifications of a trace, each with \<^verbatim>\<open>total_written\<close> at its moment.\<close>

definition reports :: "effect list \<Rightarrow> (int \<times> int) list" where
  "reports tr = concat (map (\<lambda>e. case e of Progress v t \<Rightarrow> [(v, t)] | _ \<Rightarrow> []) tr)"

text \<open>
  The invariant of the progress state: the values reported so far are the first
  multiples of the interval, \<^verbatim>\<open>last_report\<close> is the last of them and no more than
  \<^verbatim>\<open>total_written\<close>; \<open>settled\<close> adds what holds whenever the inner loop has ended.
\<close>

definition paced :: "int \<Rightarrow> state \<Rightarrow> bool" where
  "paced i st \<longleftrightarrow>
     map fst (reports (trace st)) = map (\<lambda>k. i * int (Suc k)) [0..<length (reports (trace st))] \<and>
     last_report st = i * int (length (reports (trace st))) \<and>
     list_all (\<lambda>p. fst p \<le> snd p \<and> snd p \<le> total_written st) (reports (trace st)) \<and>
     last_report st \<le> total_written st \<and>
     (i \<le> 0 \<longrightarrow> reports (trace st) = [])"

definition settled :: "int \<Rightarrow> state \<Rightarrow> bool" where
  "settled i st \<longleftrightarrow> paced i st \<and> (0 < i \<longrightarrow> total_written st < last_report st + i)"

text \<open>
  What a run of the loop leaves behind, as far as the claims look at it: the outcome, the
  content of the output artifact and the final \<^verbatim>\<open>total_written\<close>.
\<close>

definition summary :: "(outcome \<times> state) option \<Rightarrow> (outcome \<times> bytes \<times> int) option" where
  "summary = map_option (\<lambda>(r, st). (r, out_file st, total_written st))"

subsection \<open>Words of the claims about the session\<close>

text \<open>The byte strings handed to \<^verbatim>\<open>sock.sendall\<close>, in order.\<close>

definition sent_of :: "effect list \<Rightarrow> bytes list" where
  "sent_of tr = concat (map (\<lambda>e. case e of Sent b \<Rightarrow> [b] | _ \<Rightarrow> []) tr)"

text \<open>
  Everything a session sends, in order: the user name, the SAVE command, the
  acknowledgement byte and the secondary header. \<open>on_wire\<close>: what has been sent so far is
  an initial part of it.
\<close>

definition wire :: "config \<Rightarrow> bytes list" where
  "wire cfg =
     [username cfg @ [CR, LF],
      ''SAVE'' @ (if full cfg then ''/Full'' else []) @ '' '' @ sanitize (base_name cfg) @ [CR, LF],
      ACK_BYTE, SECOND_HEADER]"

definition on_wire :: "config \<Rightarrow> state \<Rightarrow> bool" where
  "on_wire cfg st \<longleftrightarrow>
     take (length (sent_of (trace st))) (wire cfg) = sent_of (trace st)"

text \<open>
  The command in the words of the external-interfaces section of the specification:
  \<^verbatim>\<open>SAVE<CRLF>\<close> or \<^verbatim>\<open>SAVE/Full<CRLF>\<close>, followed immediately by a space, the sanitized
  base name and CRLF.
\<close>

definition claimed_command :: "config \<Rightarrow> bytes" where
  "claimed_command cfg =
     ''SAVE'' @ (if full cfg then ''/Full'' else []) @ [CR, LF] @ '' '' @ sanitize (base_name cfg)
       @ [CR, LF]"

text \<open>What the connect loop leaves in the trace for an attempt that fails and is retried.\<close>

definition retry_effects :: "int \<Rightarrow> effect list" where
  "retry_effects a = [Status (Connecting a), Status ConnectRetry, SleepRetry]"

text \<open>
  A timed script gives, with each read, the seconds the call of \<^verbatim>\<open>recv\<close> took. Under
  \<^verbatim>\<open>sock.settimeout(t)\<close> a read that returns bytes took less than \<open>t\<close> seconds.
  \<open>elapsed\<close> is the time the reads of a script take together.
\<close>

definition elapsed :: "(nat \<times> moment) list \<Rightarrow> nat" where
  "elapsed ts = sum_list (map fst ts)"

section \<open>Facts about the record expression and the loops\<close>

lemma reports_append [simp]: "reports (xs @ ys) = reports xs @ reports ys"
  by (simp add: reports_def)

lemma reports_Progress [simp]: "reports [Progress v t] = [(v, t)]"
  by (simp add: reports_def)

lemma progress_while_frame:
  assumes "progress_while i st = Some st'"
  shows "out_file st' = out_file st \<and> dbg_file st' = dbg_file st \<and> buffer st' = buffer st \<and>
     total_written st' = total_written st"
  by (rule progress_while.raw_induct [OF _ assms,
        where P = "\<lambda>i st st'. out_file st' = out_file st \<and> dbg_file st' = dbg_file st \<and>
                     buffer st' = buffer st \<and> total_written st' = total_written st"])
     (auto split: if_splits)

lemma progress_while_diverges:
  assumes "progress_while i st = Some st'"
  shows "i \<le> 0 \<longrightarrow> total_written st < last_report st + i"
  by (rule progress_while.raw_induct [OF _ assms,
        where P = "\<lambda>i st st'. i \<le> 0 \<longrightarrow> total_written st < last_report st + i"])
     (fastforce split: if_splits)

lemma progress_while_exit:
  assumes "progress_while i st = Some st'"
  shows "total_written st' < last_report st' + i"
  by (rule progress_while.raw_induct [OF _ assms,
        where P = "\<lambda>i st st'. total_written st' < last_report st' + i"])
     (auto split: if_splits)

lemma drain_None: "search_rec (buffer st) = None \<Longrightarrow> drain i st = Some st"
  by (simp add: drain.simps)

lemma drain_Some:
  "search_rec (buffer st) = Some (s, e) \<Longrightarrow>
   drain i st =
     (case progress_while i
             (st\<lparr>out_file := out_file st @ payload_of (take (e - s) (drop s (buffer st))),
                 total_written := total_written st
                    + int (length (payload_of (take (e - s) (drop s (buffer st)))))\<rparr>) of
        None \<Rightarrow> None
      | Some st' \<Rightarrow> drain i (st'\<lparr>buffer := drop e (buffer st)\<rparr>))"
  by (subst drain.simps) (simp add: Let_def)

lemma progress_while_terminates: "0 < i \<Longrightarrow> \<exists>st'. progress_while i st = Some st'"
proof (induction "nat (total_written st - last_report st)" arbitrary: st rule: less_induct)
  case less
  show ?case
  proof (cases "last_report st + i \<le> total_written st")
    case False
    then show ?thesis by (subst progress_while.simps) simp
  next
    case True
    let ?st = "st\<lparr>last_report := last_report st + i,
                 trace := trace st @ [Progress (last_report st + i) (total_written st)]\<rparr>"
    have "nat (total_written ?st - last_report ?st) < nat (total_written st - last_report st)"
      using True less.prems by simp
    from less.hyps [OF this less.prems] obtain st' where "progress_while i ?st = Some st'"
      by blast
    then show ?thesis using True by (subst progress_while.simps) simp
  qed
qed

lemma body_end_no_CR: "CR \<notin> set bs \<Longrightarrow> body_end bs = None"
  by (induction bs) auto

lemma match_here_no_CR: "CR \<notin> set bs \<Longrightarrow> match_here bs = None"
proof -
  assume a: "CR \<notin> set bs"
  have "CR \<notin> set (drop 4 bs)" "CR \<notin> set (drop 3 bs)"
    using a by (auto dest: in_set_dropD)
  then show ?thesis by (simp add: match_here_def body_end_no_CR)
qed

lemma search_rec_no_CR: "CR \<notin> set bs \<Longrightarrow> search_rec bs = None"
  by (induction bs) (auto simp: match_here_no_CR)

lemma body_end_body:
  "CR \<notin> set b \<Longrightarrow> LF \<notin> set b \<Longrightarrow> body_end (b @ CR # rest) = Some (Suc (length b))"
  by (induction b) auto

lemma match_here_encode:
  "well_formed_record r \<Longrightarrow> match_here (encode_record r @ rest) = Some (length (encode_record r))"
  by (cases r) (simp add: match_here_def encode_record_def well_formed_record_def REC_MARKER_def
        ETB_def body_end_body)

lemma search_rec_encode:
  "well_formed_record r \<Longrightarrow>
   search_rec (encode_record r @ rest) = Some (0, length (encode_record r))"
proof -
  assume wf: "well_formed_record r"
  obtain c cs where "encode_record r @ rest = c # cs"
    by (cases "encode_record r @ rest") (auto simp: encode_record_def REC_MARKER_def)
  then show ?thesis using match_here_encode [OF wf, of rest] by simp
qed

lemma payload_of_encode: "payload_of (encode_record r) = decoded_payload r"
  by (cases r) (simp add: payload_of_def encode_record_def decoded_payload_def REC_MARKER_def
        ETB_def CR_def)

lemma contains_iff: "contains p bs \<longleftrightarrow> (\<exists>xs ys. bs = xs @ p @ ys)"
proof (induction bs)
  case Nil
  then show ?case by auto
next
  case (Cons c cs)
  show ?case
  proof
    assume "contains p (c # cs)"
    then consider "take (length p) (c # cs) = p" | "contains p cs" by auto
    then show "\<exists>xs ys. c # cs = xs @ p @ ys"
    proof cases
      case 1
      then have "c # cs = [] @ p @ drop (length p) (c # cs)"
        by (metis append_Nil append_take_drop_id)
      then show ?thesis by blast
    next
      case 2
      then obtain xs ys where "cs = xs @ p @ ys" using Cons.IH by blast
      then have "c # cs = (c # xs) @ p @ ys" by simp
      then show ?thesis by blast
    qed
  next
    assume "\<exists>xs ys. c # cs = xs @ p @ ys"
    then obtain xs ys where e: "c # cs = xs @ p @ ys" by blast
    show "contains p (c # cs)"
    proof (cases xs)
      case Nil
      then have "take (length p) (c # cs) = p" using e by simp
      then show ?thesis by simp
    next
      case (Cons x xs')
      then have "cs = xs' @ p @ ys" using e by simp
      then show ?thesis using Cons.IH by auto
    qed
  qed
qed

lemma contains_length: "contains p bs \<Longrightarrow> length p \<le> length bs"
  by (auto simp: contains_iff)

lemma contains_prefix: "contains p xs \<Longrightarrow> contains p (xs @ ys)"
  unfolding contains_iff by (metis append.assoc)

lemma contains_stream: "contains EOT_MARKER (transport_stream rs)"
  unfolding contains_iff transport_stream_def by (metis append_Nil2)

lemma contains_EOT_head:
  "contains EOT_MARKER ((if e then [ETB] else []) @ REC_MARKER @ b) = contains EOT_MARKER b"
  by (simp add: EOT_MARKER_def REC_MARKER_def ETB_def)

lemma proper_prefix_record:
  assumes wf: "well_formed_record r" and ef: "eot_free r"
    and p: "encode_record r @ rest = P @ R" and l: "length P < length (encode_record r)"
  shows "CR \<notin> set P \<and> \<not> contains EOT_MARKER P"
proof -
  define h where "h = (if fst r then [ETB] else []) @ REC_MARKER @ snd r"
  have enc: "encode_record r = h @ [CR]" by (simp add: encode_record_def h_def)
  have "take (length P) (encode_record r @ rest) = take (length P) (P @ R)"
    using p by simp
  then have "take (length P) (encode_record r) = P" using l by simp
  then have P: "take (length P) h = P" using l by (simp add: enc)
  have h: "h = P @ drop (length P) h"
    using append_take_drop_id [of "length P" h] by (simp only: P)
  have "CR \<notin> set h"
    using wf by (auto simp: h_def well_formed_record_def REC_MARKER_def ETB_def CR_def)
  moreover have "set P \<subseteq> set h" using set_take_subset [of "length P" h] by (simp only: P)
  ultimately have 1: "CR \<notin> set P" by blast
  have "\<not> contains EOT_MARKER h"
    using ef unfolding h_def by (simp only: contains_EOT_head eot_free_def) simp
  then have 2: "\<not> contains EOT_MARKER P"
    using contains_prefix [of EOT_MARKER P "drop (length P) h"] h by auto
  show ?thesis using 1 2 by blast
qed

lemma split_stream:
  assumes "\<forall>r\<in>set rs. well_formed_record r \<and> eot_free r"
    and "transport_stream rs = P @ R"
  shows "\<exists>j t. j \<le> length rs \<and> P = concat (map encode_record (take j rs)) @ t \<and>
           t @ R = transport_stream (drop j rs) \<and> search_rec t = None \<and>
           (contains EOT_MARKER t \<longleftrightarrow> R = []) \<and> (R = [] \<longrightarrow> j = length rs)"
  using assms
proof (induction rs arbitrary: P)
  case Nil
  then have e: "P @ R = EOT_MARKER" by (simp add: transport_stream_def)
  have "set P \<subseteq> set EOT_MARKER" by (simp add: e [symmetric])
  moreover have "CR \<notin> set EOT_MARKER" by (simp add: EOT_MARKER_def CR_def)
  ultimately have "CR \<notin> set P" by blast
  then have s: "search_rec P = None" by (rule search_rec_no_CR)
  have len: "length P + length R = length EOT_MARKER"
    using arg_cong [OF e, of length] by simp
  have c: "contains EOT_MARKER P \<longleftrightarrow> R = []"
  proof
    assume "contains EOT_MARKER P"
    then have "length EOT_MARKER \<le> length P" by (rule contains_length)
    then have "length R = 0" using len by arith
    then show "R = []" by simp
  next
    assume "R = []"
    then have "P = [] @ EOT_MARKER @ []" using e by simp
    then show "contains EOT_MARKER P" unfolding contains_iff by blast
  qed
  show ?case
    using e s c by (intro exI [of _ 0] exI [of _ P]) (simp add: transport_stream_def)
next
  case (Cons r rs)
  have wf: "well_formed_record r" "eot_free r" using Cons.prems(1) by auto
  have st: "encode_record r @ transport_stream rs = P @ R"
    using Cons.prems(2) by (simp add: transport_stream_def)
  show ?case
  proof (cases "length P < length (encode_record r)")
    case True
    from proper_prefix_record [OF wf st True]
    have 1: "CR \<notin> set P" and 2: "\<not> contains EOT_MARKER P" by auto
    have "length (encode_record r) + length (transport_stream rs) = length P + length R"
      using arg_cong [OF st, of length] by simp
    then have "R \<noteq> []" using True by auto
    then show ?thesis
      using 1 2 Cons.prems(2)
      by (intro exI [of _ 0] exI [of _ P]) (simp add: search_rec_no_CR)
  next
    case False
    define P' where "P' = drop (length (encode_record r)) P"
    have "encode_record r = take (length (encode_record r)) P \<and> transport_stream rs = P' @ R"
      using st False by (simp add: append_eq_append_conv_if P'_def)
    then have P: "P = encode_record r @ P'" and r: "transport_stream rs = P' @ R"
      using append_take_drop_id [of "length (encode_record r)" P] by (simp_all add: P'_def)
    have "\<forall>r\<in>set rs. well_formed_record r \<and> eot_free r" using Cons.prems(1) by simp
    from Cons.IH [OF this r] obtain j t where
      jt: "j \<le> length rs" "P' = concat (map encode_record (take j rs)) @ t"
      "t @ R = transport_stream (drop j rs)" "search_rec t = None"
      "contains EOT_MARKER t \<longleftrightarrow> R = []" "R = [] \<longrightarrow> j = length rs"
      by blast
    show ?thesis
      using jt P by (intro exI [of _ "Suc j"] exI [of _ t]) simp
  qed
qed

lemma drain_records:
  assumes i: "0 < i \<or> rs = []" and wf: "\<forall>r\<in>set rs. well_formed_record r"
    and t: "search_rec t = None"
    and b: "buffer st = concat (map encode_record rs) @ t"
  shows "\<exists>st'. drain i st = Some st' \<and> buffer st' = t \<and>
           out_file st' = out_file st @ concat (map decoded_payload rs) \<and>
           total_written st' = total_written st + int (length (concat (map decoded_payload rs))) \<and>
           dbg_file st' = dbg_file st"
  using i wf b
proof (induction rs arbitrary: st)
  case Nil
  then show ?case using t by (simp add: drain_None)
next
  case (Cons r rs)
  have i: "0 < i" using Cons.prems(1) by simp
  have wfr: "well_formed_record r" using Cons.prems(2) by simp
  have buf: "buffer st = encode_record r @ (concat (map encode_record rs) @ t)"
    using Cons.prems(3) by simp
  have s: "search_rec (buffer st) = Some (0, length (encode_record r))"
    unfolding buf by (rule search_rec_encode [OF wfr])
  let ?st1 = "st\<lparr>out_file := out_file st @ decoded_payload r,
                  total_written := total_written st + int (length (decoded_payload r))\<rparr>"
  obtain st2 where pw: "progress_while i ?st1 = Some st2"
    using progress_while_terminates [OF i] by blast
  note fr = progress_while_frame [OF pw]
  let ?st3 = "st2\<lparr>buffer := drop (length (encode_record r)) (buffer st)\<rparr>"
  have d: "drain i st = drain i ?st3"
    using drain_Some [OF s, of i] pw by (simp add: buf payload_of_encode)
  have b3: "buffer ?st3 = concat (map encode_record rs) @ t" by (simp add: buf)
  have "\<forall>r\<in>set rs. well_formed_record r" using Cons.prems(2) by simp
  from Cons.IH [OF _ this b3] i obtain st' where
    "drain i ?st3 = Some st'" "buffer st' = t"
    "out_file st' = out_file ?st3 @ concat (map decoded_payload rs)"
    "total_written st' = total_written ?st3 + int (length (concat (map decoded_payload rs)))"
    "dbg_file st' = dbg_file ?st3"
    by blast
  then show ?case using d fr by simp
qed

lemma stream_loop_quiet:
  assumes "quiet m"
  shows "stream_loop i (m # ms) st =
     (case feed i (chunk_of m) st of
        None \<Rightarrow> None
      | Some st' \<Rightarrow>
          if contains EOT_MARKER (buffer st') then Some (Returned, st')
          else stream_loop i ms st')"
  using assms by (cases m) (auto simp: quiet_def chunk_of_def split: recv_result.splits)

lemma stream_loop_delivers:
  "0 < i \<or> rs = [] \<Longrightarrow>
     \<forall>r\<in>set rs. well_formed_record r \<and> eot_free r \<Longrightarrow> \<forall>m\<in>set ms. quiet m \<Longrightarrow>
     buffer st @ delivered ms = transport_stream rs \<Longrightarrow> search_rec (buffer st) = None \<Longrightarrow>
     \<not> contains EOT_MARKER (buffer st) \<Longrightarrow>
     \<exists>st'. stream_loop i ms st = Some (Returned, st') \<and>
       out_file st' = out_file st @ concat (map decoded_payload rs) \<and>
       total_written st' = total_written st + int (length (concat (map decoded_payload rs)))"
proof (induction ms arbitrary: st rs)
  case Nil
  then have "buffer st = transport_stream rs" by (simp add: delivered_def)
  then show ?case using contains_stream [of rs] Nil.prems(6) by simp
next
  case (Cons m ms)
  have q: "quiet m" using Cons.prems(3) by simp
  have qs: "\<forall>m\<in>set ms. quiet m" using Cons.prems(3) by simp
  note loop = stream_loop_quiet [OF q, of i ms st]
  show ?case
  proof (cases "chunk_of m = []")
    case True
    have f: "feed i (chunk_of m) st = Some st"
      using True Cons.prems(5) by (simp add: feed_def drain_None)
    have "buffer st @ delivered ms = transport_stream rs"
      using Cons.prems(4) True by (simp add: delivered_def)
    from Cons.IH [OF Cons.prems(1) Cons.prems(2) qs this Cons.prems(5) Cons.prems(6)]
    show ?thesis using loop f Cons.prems(6) by simp
  next
    case False
    let ?st1 = "st\<lparr>dbg_file := dbg_file st @ chunk_of m, buffer := buffer st @ chunk_of m\<rparr>"
    have sp: "transport_stream rs = (buffer st @ chunk_of m) @ delivered ms"
      using Cons.prems(4) by (simp add: delivered_def)
    from split_stream [OF Cons.prems(2) sp] obtain j t where
      jt: "j \<le> length rs" "buffer st @ chunk_of m = concat (map encode_record (take j rs)) @ t"
      "t @ delivered ms = transport_stream (drop j rs)" "search_rec t = None"
      "contains EOT_MARKER t \<longleftrightarrow> delivered ms = []" "delivered ms = [] \<longrightarrow> j = length rs"
      by blast
    have wft: "\<forall>r\<in>set (take j rs). well_formed_record r"
      using Cons.prems(2) by (auto dest: in_set_takeD)
    have b1: "buffer ?st1 = concat (map encode_record (take j rs)) @ t" using jt(2) by simp
    have i1: "0 < i \<or> take j rs = []" using Cons.prems(1) by auto
    from drain_records [OF i1 wft jt(4) b1] obtain st2 where
      st2: "drain i ?st1 = Some st2" "buffer st2 = t"
      "out_file st2 = out_file st @ concat (map decoded_payload (take j rs))"
      "total_written st2 = total_written st + int (length (concat (map decoded_payload (take j rs))))"
      by auto
    have f: "feed i (chunk_of m) st = Some st2" using False st2(1) by (simp add: feed_def)
    show ?thesis
    proof (cases "delivered ms = []")
      case True
      then have "take j rs = rs" using jt(6) by simp
      then show ?thesis using loop f st2 jt(5) True by simp
    next
      case False
      have wfd: "\<forall>r\<in>set (drop j rs). well_formed_record r \<and> eot_free r"
        using Cons.prems(2) by (auto dest: in_set_dropD)
      have b: "buffer st2 @ delivered ms = transport_stream (drop j rs)"
        using st2(2) jt(3) by simp
      have s: "search_rec (buffer st2) = None" using st2(2) jt(4) by simp
      have c: "\<not> contains EOT_MARKER (buffer st2)" using st2(2) jt(5) False by simp
      have i2: "0 < i \<or> drop j rs = []" using Cons.prems(1) by auto
      from Cons.IH [OF i2 wfd qs b s c] obtain st' where
        st': "stream_loop i ms st2 = Some (Returned, st')"
        "out_file st' = out_file st2 @ concat (map decoded_payload (drop j rs))"
        "total_written st' = total_written st2 + int (length (concat (map decoded_payload (drop j rs))))"
        by blast
      have cat: "concat (map decoded_payload (take j rs)) @ concat (map decoded_payload (drop j rs))
                   = concat (map decoded_payload rs)"
        by (metis append_take_drop_id concat_append map_append)
      have "out_file st' = out_file st @ concat (map decoded_payload rs)"
        using st'(2) st2(3) cat by simp
      moreover have "total_written st' =
          total_written st + int (length (concat (map decoded_payload rs)))"
        using st'(3) st2(4) arg_cong [OF cat, of length] by simp
      ultimately show ?thesis using loop f st'(1) c by simp
    qed
  qed
qed

lemma progress_while_paced_pos:
  "0 < i \<Longrightarrow> paced i st \<Longrightarrow> \<exists>st'. progress_while i st = Some st' \<and> paced i st'"
proof (induction "nat (total_written st - last_report st)" arbitrary: st rule: less_induct)
  case less
  show ?case
  proof (cases "last_report st + i \<le> total_written st")
    case False
    then show ?thesis using less.prems by (subst progress_while.simps) simp
  next
    case True
    let ?st = "st\<lparr>last_report := last_report st + i,
                 trace := trace st @ [Progress (last_report st + i) (total_written st)]\<rparr>"
    have m: "nat (total_written ?st - last_report ?st) < nat (total_written st - last_report st)"
      using True less.prems(1) by simp
    have inv: "paced i ?st"
      using True less.prems by (simp add: paced_def algebra_simps)
    from less.hyps [OF m less.prems(1) inv] obtain st' where
      "progress_while i ?st = Some st'" "paced i st'" by blast
    then show ?thesis using True by (subst progress_while.simps) simp
  qed
qed

lemma progress_while_settled:
  assumes pw: "progress_while i st = Some st'" and p: "paced i st"
  shows "settled i st'"
proof (cases "0 < i")
  case True
  from progress_while_paced_pos [OF True p] pw have "paced i st'" by auto
  then show ?thesis using progress_while_exit [OF pw] by (simp add: settled_def)
next
  case False
  then have "total_written st < last_report st + i"
    using progress_while_diverges [OF pw] by simp
  then have "progress_while i st = Some st" by (subst progress_while.simps) simp
  then have "st' = st" using pw by simp
  then show ?thesis using p False by (simp add: settled_def)
qed

lemma drain_settled:
  "drain i st = Some st' \<Longrightarrow> settled i st \<Longrightarrow> settled i st'"
proof (induction "length (buffer st)" arbitrary: st rule: less_induct)
  case less
  show ?case
  proof (cases "search_rec (buffer st)")
    case None
    then show ?thesis using less.prems by (simp add: drain_None)
  next
    case (Some m)
    obtain s e where m: "m = (s, e)" by (cases m)
    let ?p = "payload_of (take (e - s) (drop s (buffer st)))"
    let ?st1 = "st\<lparr>out_file := out_file st @ ?p,
                  total_written := total_written st + int (length ?p)\<rparr>"
    have sr: "search_rec (buffer st) = Some (s, e)" using Some m by simp
    from less.prems(1) drain_Some [OF sr, of i] obtain st2 where
      pw: "progress_while i ?st1 = Some st2"
      and d: "drain i (st2\<lparr>buffer := drop e (buffer st)\<rparr>) = Some st'"
      by (auto split: option.splits)
    have "paced i ?st1"
      using less.prems(2) by (auto simp: settled_def paced_def list_all_iff)
    from progress_while_settled [OF pw this]
    have s2: "settled i (st2\<lparr>buffer := drop e (buffer st)\<rparr>)"
      by (auto simp: settled_def paced_def)
    have "length (buffer (st2\<lparr>buffer := drop e (buffer st)\<rparr>)) < length (buffer st)"
      using search_rec_bounds [OF sr] by auto
    from less.hyps [OF this d s2] show ?thesis .
  qed
qed

lemma drain_drained: "drain i st = Some st' \<Longrightarrow> search_rec (buffer st') = None"
proof (induction "length (buffer st)" arbitrary: st rule: less_induct)
  case less
  show ?case
  proof (cases "search_rec (buffer st)")
    case None
    then show ?thesis using less.prems by (simp add: drain_None)
  next
    case (Some m)
    obtain s e where m: "m = (s, e)" by (cases m)
    have sr: "search_rec (buffer st) = Some (s, e)" using Some m by simp
    from less.prems(1) drain_Some [OF sr, of i] obtain st2 where
      d: "drain i (st2\<lparr>buffer := drop e (buffer st)\<rparr>) = Some st'"
      by (auto split: option.splits)
    have "length (buffer (st2\<lparr>buffer := drop e (buffer st)\<rparr>)) < length (buffer st)"
      using search_rec_bounds [OF sr] by auto
    from less.hyps [OF this d] show ?thesis .
  qed
qed

lemma feed_settled: "feed i c st = Some st' \<Longrightarrow> settled i st \<Longrightarrow> settled i st'"
  unfolding feed_def by (erule drain_settled) (auto simp: settled_def paced_def)

lemma stream_loop_settled:
  "stream_loop i ms st = Some (r, st') \<Longrightarrow> settled i st \<Longrightarrow> settled i st'"
proof (induction ms arbitrary: st)
  case Nil
  then show ?case by simp
next
  case (Cons m ms)
  show ?case
  proof (cases "cancel_requested m \<or> (\<exists>e. arrival m = RecvRaises e \<and> e \<noteq> SocketTimeout)")
    case True
    then have "st' = st" using Cons.prems(1) by (auto split: recv_result.splits if_splits)
    then show ?thesis using Cons.prems(2) by simp
  next
    case False
    then have "quiet m" by (auto simp: quiet_def split: recv_result.splits)
    note loop = stream_loop_quiet [OF this, of i ms st]
    from Cons.prems(1) loop obtain st1 where
      f: "feed i (chunk_of m) st = Some st1" by (auto split: option.splits)
    have s1: "settled i st1" using feed_settled [OF f Cons.prems(2)] .
    show ?thesis
    proof (cases "contains EOT_MARKER (buffer st1)")
      case True
      then have "st' = st1" using Cons.prems(1) loop f by simp
      then show ?thesis using s1 by simp
    next
      case False
      then have "stream_loop i ms st1 = Some (r, st')" using Cons.prems(1) loop f by simp
      from Cons.IH [OF this s1] show ?thesis .
    qed
  qed
qed

lemma settled_init: "settled i init_state"
  by (simp add: settled_def paced_def init_state_def reports_def)

lemma settled_count:
  assumes "settled i st"
  shows "length (reports (trace st)) = nat (total_written st div i)"
proof (cases "0 < i")
  case True
  let ?n = "int (length (reports (trace st)))"
  have b: "i * ?n \<le> total_written st" "total_written st < i * ?n + i"
    using assms True by (auto simp: settled_def paced_def)
  define r where "r = total_written st - i * ?n"
  have r: "0 \<le> r" "r < i" using b by (simp_all add: r_def)
  have "total_written st div i = (r + i * ?n) div i" by (simp add: r_def)
  also have "\<dots> = ?n + r div i" using True by simp
  also have "r div i = 0" using r by simp
  finally have "total_written st div i = ?n" by simp
  then show ?thesis by simp
next
  case False
  then have "reports (trace st) = []" "0 \<le> total_written st"
    using assms by (auto simp: settled_def paced_def)
  moreover have "total_written st div i \<le> 0"
  proof (cases "i = 0")
    case True
    then show ?thesis by simp
  next
    case False
    then have "i < 0" using \<open>\<not> 0 < i\<close> by simp
    then show ?thesis using \<open>0 \<le> total_written st\<close> by (rule div_nonneg_neg_le0 [rotated])
  qed
  ultimately show ?thesis by simp
qed

lemma drain_nonpos_None:
  assumes "i \<le> 0" and "last_report st \<le> total_written st" and "search_rec (buffer st) \<noteq> None"
  shows "drain i st = None"
proof -
  from assms(3) obtain s e where sr: "search_rec (buffer st) = Some (s, e)" by auto
  let ?p = "payload_of (take (e - s) (drop s (buffer st)))"
  let ?st1 = "st\<lparr>out_file := out_file st @ ?p, total_written := total_written st + int (length ?p)\<rparr>"
  have "progress_while i ?st1 = None"
  proof (cases "progress_while i ?st1")
    case None
    then show ?thesis .
  next
    case (Some st')
    from progress_while_diverges [OF Some] assms(1,2) show ?thesis by simp
  qed
  then show ?thesis using drain_Some [OF sr, of i] by simp
qed

lemma whole_stream_nonpos_None:
  assumes "i \<le> 0" and "rs \<noteq> []" and "\<forall>r\<in>set rs. well_formed_record r"
    and "buffer st = []" and "last_report st \<le> total_written st"
  shows "stream_loop i [Moment False (Data (transport_stream rs))] st = None"
proof -
  obtain r rs' where rs: "rs = r # rs'" using assms(2) by (cases rs) auto
  let ?S = "transport_stream rs"
  have S: "?S = encode_record r @ transport_stream rs'" by (simp add: rs transport_stream_def)
  have ne: "?S \<noteq> []" by (simp add: transport_stream_def EOT_MARKER_def)
  have "search_rec ?S \<noteq> None"
    unfolding S using search_rec_encode [of r] assms(3) rs by simp
  then have "drain i (st\<lparr>dbg_file := dbg_file st @ ?S, buffer := buffer st @ ?S\<rparr>) = None"
    using assms(1,4,5) by (intro drain_nonpos_None) simp_all
  then show ?thesis using ne by (simp add: feed_def)
qed

lemma two_pieces_nonpos_None:
  assumes i: "i \<le> 0" and ne: "rs \<noteq> []"
    and wf: "\<forall>r\<in>set rs. well_formed_record r \<and> eot_free r"
    and b: "buffer st = []" and l: "last_report st \<le> total_written st"
  shows "stream_loop i
           [Moment False (Data (take k (transport_stream rs))),
            Moment False (Data (drop k (transport_stream rs)))] st = None"
proof -
  let ?S = "transport_stream rs"
  let ?c1 = "take k ?S" and ?c2 = "drop k ?S"
  obtain r rs' where rs: "rs = r # rs'" using ne by (cases rs) auto
  have S: "?S = encode_record r @ transport_stream rs'" by (simp add: rs transport_stream_def)
  have wfr: "well_formed_record r" using wf rs by simp
  have sS: "search_rec ?S \<noteq> None" unfolding S using search_rec_encode [OF wfr] by simp
  let ?st1 = "if ?c1 \<noteq> [] then st\<lparr>dbg_file := dbg_file st @ ?c1, buffer := buffer st @ ?c1\<rparr> else st"
  have b1: "buffer ?st1 = ?c1" using b by simp
  have l1: "last_report ?st1 \<le> total_written ?st1" using l by simp
  show ?thesis
  proof (cases "search_rec ?c1")
    case (Some m)
    then have "drain i ?st1 = None"
      using drain_nonpos_None [OF i l1] b1 by simp
    then show ?thesis by (simp add: feed_def)
  next
    case None
    then have d1: "drain i ?st1 = Some ?st1" using b1 by (simp add: drain_None)
    have sp: "?S = ?c1 @ ?c2" by simp
    from split_stream [OF wf sp] obtain j t where
      jt: "j \<le> length rs" "?c1 = concat (map encode_record (take j rs)) @ t"
      "contains EOT_MARKER t \<longleftrightarrow> ?c2 = []" "?c2 = [] \<longrightarrow> j = length rs"
      by blast
    have j0: "j = 0"
    proof (rule ccontr)
      assume "j \<noteq> 0"
      then obtain j' where "j = Suc j'" by (cases j) auto
      then have "?c1 = encode_record r @ (concat (map encode_record (take j' rs')) @ t)"
        using jt(2) rs by simp
      then have "search_rec ?c1 \<noteq> None"
        using search_rec_encode [OF wfr, of "concat (map encode_record (take j' rs')) @ t"]
        by simp
      then show False using None by simp
    qed
    then have c2: "?c2 \<noteq> []" using jt(4) ne by auto
    then have ne1: "\<not> contains EOT_MARKER (buffer ?st1)" using jt(2,3) j0 b1 by simp
    let ?st2 = "?st1\<lparr>dbg_file := dbg_file ?st1 @ ?c2, buffer := buffer ?st1 @ ?c2\<rparr>"
    have "buffer ?st2 = ?S" using b1 by simp
    then have "drain i ?st2 = None"
      using drain_nonpos_None [OF i, of ?st2] l sS by simp
    then have "feed i ?c2 ?st1 = None" using c2 by (simp add: feed_def)
    moreover have "feed i ?c1 st = Some ?st1" using d1 by (simp add: feed_def)
    ultimately show ?thesis using ne1 by simp
  qed
qed

lemmas eval_defs =
  drain.simps feed_def progress_while.simps match_here_def payload_of_def init_state_def
  summary_def DEFAULT_PROGRESS_INTERVAL_def EOT_MARKER_def REC_MARKER_def CR_def LF_def ETB_def

section \<open>Facts about the handshake and the session\<close>

lemma emit_fields [simp]:
  "out_file (emit e st) = out_file st" "dbg_file (emit e st) = dbg_file st"
  "buffer (emit e st) = buffer st" "total_written (emit e st) = total_written st"
  "last_report (emit e st) = last_report st" "trace (emit e st) = trace st @ [e]"
  by (simp_all add: emit_def)

lemma recv_until_frame:
  "recv_until pat buf st ms = res \<Longrightarrow>
   (case res of
      RecvDone b st' rest \<Rightarrow> out_file st' = out_file st \<and> trace st' = trace st
    | RecvRaised e st' \<Rightarrow> out_file st' = out_file st \<and> trace st' = trace st
    | RecvBlocked st' \<Rightarrow> out_file st' = out_file st \<and> trace st' = trace st)"
proof (induction ms arbitrary: buf st)
  case Nil
  then show ?case by auto
next
  case (Cons m ms)
  show ?case
  proof (cases "\<not> pat buf \<and> (\<exists>c. arrival m = Data c \<and> c \<noteq> [])")
    case True
    then obtain c where c: "arrival m = Data c" "c \<noteq> []" "\<not> pat buf" by blast
    then have "recv_until pat (buf @ c) (st\<lparr>dbg_file := dbg_file st @ c\<rparr>) ms = res"
      using Cons.prems by simp
    from Cons.IH [OF this] show ?thesis by (simp split: recv_outcome.splits)
  next
    case False
    then show ?thesis using Cons.prems by (auto split: recv_result.splits)
  qed
qed

lemma wait_for_frame:
  "wait_for ph pat st ms = res \<Longrightarrow>
   (case res of
      Continue b st' rest \<Rightarrow> out_file st' = out_file st \<and> trace st' = trace st
    | Stop r st' \<Rightarrow> out_file st' = out_file st \<and> trace st' = trace st)"
  using recv_until_frame [of pat "[]" st ms "recv_until pat [] st ms"]
  by (auto simp: wait_for_def split: recv_outcome.splits)

lemma wait_for_trace:
  "wait_for ph pat st ms = Continue b st' rest \<Longrightarrow> trace st' = trace st"
  "wait_for ph pat st ms = Stop r st' \<Longrightarrow> trace st' = trace st"
  using wait_for_frame [of ph pat st ms "Continue b st' rest"]
    wait_for_frame [of ph pat st ms "Stop r st'"] by simp_all

lemma recv_until_blocked_raise:
  "recv_until pat buf st pre = RecvBlocked st' \<Longrightarrow> arrival m = RecvRaises e \<Longrightarrow>
   recv_until pat buf st (pre @ m # post) = RecvRaised e st'"
  by (induction pre arbitrary: buf st) (auto split: if_splits recv_result.splits)

lemma recv_until_blocked_closed:
  "recv_until pat buf st pre = RecvBlocked st' \<Longrightarrow> arrival m = Data [] \<Longrightarrow>
   \<exists>b. \<not> pat b \<and> recv_until pat buf st (pre @ m # post) = RecvDone b st' post"
  by (induction pre arbitrary: buf st) (auto split: if_splits recv_result.splits)

lemma recv_until_blocked_closed_buffer:
  "recv_until pat buf st pre = RecvBlocked st' \<Longrightarrow> arrival m = Data [] \<Longrightarrow>
   \<not> pat (buf @ delivered pre) \<and>
   recv_until pat buf st (pre @ m # post) = RecvDone (buf @ delivered pre) st' post"
proof (induction pre arbitrary: buf st)
  case Nil
  then show ?case by (auto simp: delivered_def split: if_splits)
next
  case (Cons a pre)
  from Cons.prems(1) obtain c where c: "\<not> pat buf" "arrival a = Data c" "c \<noteq> []"
    and r: "recv_until pat (buf @ c) (st\<lparr>dbg_file := dbg_file st @ c\<rparr>) pre = RecvBlocked st'"
    by (auto split: if_splits recv_result.splits)
  from Cons.IH [OF r Cons.prems(2)] c show ?case
    by (simp add: delivered_def chunk_of_def)
qed

lemma recv_until_blocked_extend:
  "recv_until pat buf st pre = RecvBlocked st' \<Longrightarrow>
   \<not> pat (buf @ delivered pre) \<and>
   recv_until pat buf st (pre @ sfx) = recv_until pat (buf @ delivered pre) st' sfx"
proof (induction pre arbitrary: buf st)
  case Nil
  then show ?case by (auto simp: delivered_def split: if_splits)
next
  case (Cons a pre)
  from Cons.prems(1) obtain c where c: "\<not> pat buf" "arrival a = Data c" "c \<noteq> []"
    and r: "recv_until pat (buf @ c) (st\<lparr>dbg_file := dbg_file st @ c\<rparr>) pre = RecvBlocked st'"
    by (auto split: if_splits recv_result.splits)
  from Cons.IH [OF r] c show ?case
    by (simp add: delivered_def chunk_of_def)
qed

lemma recv_until_done_extend:
  "recv_until pat buf st pre = RecvDone b st' rest \<Longrightarrow>
   recv_until pat buf st (pre @ sfx) = RecvDone b st' (rest @ sfx)"
proof (induction pre arbitrary: buf st)
  case Nil
  then show ?case by (cases sfx) (auto split: if_splits)
next
  case (Cons m pre)
  then show ?case by (auto split: if_splits recv_result.splits)
qed

lemma wait_for_blocked_phase: "wait_for ph pat st ms = Stop (Blocked ph') st' \<Longrightarrow> ph' = ph"
  by (auto simp: wait_for_def split: recv_outcome.splits)

lemma wait_for_blocked_raise:
  "wait_for ph pat st pre = Stop (Blocked ph') st' \<Longrightarrow> arrival m = RecvRaises e \<Longrightarrow>
   wait_for ph pat st (pre @ m # post) = Stop (Raised e) st'"
proof -
  assume a: "wait_for ph pat st pre = Stop (Blocked ph') st'" "arrival m = RecvRaises e"
  then have "recv_until pat [] st pre = RecvBlocked st'"
    by (auto simp: wait_for_def split: recv_outcome.splits)
  from recv_until_blocked_raise [OF this a(2), of post] show ?thesis
    by (simp add: wait_for_def)
qed

lemma wait_for_blocked_closed:
  "wait_for ph pat st pre = Stop (Blocked ph') st' \<Longrightarrow> arrival m = Data [] \<Longrightarrow>
   \<exists>b. \<not> pat b \<and> wait_for ph pat st (pre @ m # post) = Continue b st' post"
proof -
  assume a: "wait_for ph pat st pre = Stop (Blocked ph') st'" "arrival m = Data []"
  then have "recv_until pat [] st pre = RecvBlocked st'"
    by (auto simp: wait_for_def split: recv_outcome.splits)
  from recv_until_blocked_closed [OF this a(2), of post] show ?thesis
    by (auto simp: wait_for_def)
qed

lemma wait_for_continue_extend:
  "wait_for ph pat st pre = Continue b st' rest \<Longrightarrow>
   wait_for ph pat st (pre @ sfx) = Continue b st' (rest @ sfx)"
proof -
  assume "wait_for ph pat st pre = Continue b st' rest"
  then have "recv_until pat [] st pre = RecvDone b st' rest"
    by (auto simp: wait_for_def split: recv_outcome.splits)
  from recv_until_done_extend [OF this, of sfx] show ?thesis by (simp add: wait_for_def)
qed

lemma stream_loop_blocked: "stream_loop i ms st = Some (Blocked ph, st') \<Longrightarrow> ph = Streaming"
proof (induction ms arbitrary: st)
  case Nil
  then show ?case by simp
next
  case (Cons m ms)
  then show ?case
    by (auto split: if_splits recv_result.splits option.splits sum.splits)
qed

lemma after_header_blocked:
  "after_header cfg ev buf st ms = Some (Blocked ph, st') \<Longrightarrow> ph = Streaming"
  by (auto simp: after_header_def Let_def split: if_splits sum.splits option.splits outcome.splits
      dest: stream_loop_blocked)

lemma connect_loop_out_file: "connect_loop conn n as st = (r, st') \<Longrightarrow> out_file st' = out_file st"
  by (induction as arbitrary: st) (auto simp: Let_def split: option.splits if_splits)

lemma await_header_out_file:
  "await_header cfg ev st0 = res \<Longrightarrow>
   (case res of Continue b st rest \<Rightarrow> out_file st = [] | Stop r st \<Rightarrow> out_file st = [])"
  unfolding await_header_def Let_def sendall_def
  by (auto split: option.splits sum.splits step.splits
      dest!: wait_for_frame [where res = "Continue _ _ _", simplified]
             wait_for_frame [where res = "Stop _ _", simplified])

lemma connect_moments [simp]: "connect cfg (ev\<lparr>moments := x\<rparr>) st = connect cfg ev st"
  by (simp add: connect_def)

lemma sendall_moments [simp]: "sendall (ev\<lparr>moments := x\<rparr>) k bs st = sendall ev k bs st"
  by (simp add: sendall_def)

lemma await_header_blocked_raise:
  assumes "await_header cfg (ev\<lparr>moments := pre\<rparr>) st0 = Stop (Blocked ph) st"
    and "arrival m = RecvRaises e"
  shows "await_header cfg (ev\<lparr>moments := pre @ m # post\<rparr>) st0 = Stop (Raised e) st"
  using assms unfolding await_header_def Let_def
  by (auto split: sum.splits step.splits
      simp: wait_for_continue_extend wait_for_blocked_raise)

lemma session_blocked:
  assumes "session cfg ev st0 = Some (Blocked ph, st)" and "ph \<noteq> Streaming"
  shows "await_header cfg ev st0 = Stop (Blocked ph) st"
  using assms by (auto simp: session_def split: step.splits dest: after_header_blocked)

lemma run_blocked:
  assumes "run cfg ev = Some (Blocked ph, st)"
  shows "\<exists>st0. connect cfg ev init_state = (None, st0) \<and> session cfg ev st0 = Some (Blocked ph, st)"
  using assms by (auto simp: run_def split: prod.splits option.splits outcome.splits)

lemma await_header_login_closed:
  assumes "await_header cfg (ev\<lparr>moments := pre\<rparr>) st0 = Stop (Blocked LoginWait) st"
    and "arrival m = Data []"
  shows "await_header cfg (ev\<lparr>moments := pre @ [m]\<rparr>) st0
           = Stop (Blocked AuxWait) (emit (Status WaitingAux) st)"
proof -
  let ?st1 = "emit (Status SendingLogin)
                ((emit (Status ConnectedWaitLogin) st0)\<lparr>out_file := [], dbg_file := []\<rparr>)"
  from assms(1) obtain st2 where
    s: "sendall ev 0 (username cfg @ [CR, LF]) ?st1 = Inr st2"
    and w: "wait_for LoginWait search_login st2 pre = Stop (Blocked LoginWait) st"
    unfolding await_header_def Let_def
    by (auto split: sum.splits step.splits dest: wait_for_blocked_phase)
  from wait_for_blocked_closed [OF w assms(2), of "[]"] obtain b where
    "wait_for LoginWait search_login st2 (pre @ [m]) = Continue b st []" by blast
  then show ?thesis using s
    unfolding await_header_def Let_def by (simp add: wait_for_def)
qed

lemma await_header_aux_closed:
  assumes "await_header cfg (ev\<lparr>moments := pre\<rparr>) st0 = Stop (Blocked AuxWait) st"
    and "arrival m = Data []" and "sends ev 1 = None"
  shows "await_header cfg (ev\<lparr>moments := pre @ [m]\<rparr>) st0
           = Stop (Blocked HeaderWait)
               (emit (Status WaitingHeader) (emit (Sent (save_command cfg))
                  (emit (Status IssuingSave) st)))"
proof -
  let ?st1 = "emit (Status SendingLogin)
                ((emit (Status ConnectedWaitLogin) st0)\<lparr>out_file := [], dbg_file := []\<rparr>)"
  from assms(1) obtain st2 b1 st3 ms1 where
    s: "sendall ev 0 (username cfg @ [CR, LF]) ?st1 = Inr st2"
    and w1: "wait_for LoginWait search_login st2 pre = Continue b1 st3 ms1"
    and w2: "wait_for AuxWait search_aux (emit (Status WaitingAux) st3) ms1
               = Stop (Blocked AuxWait) st"
    unfolding await_header_def Let_def
    by (auto split: sum.splits step.splits dest: wait_for_blocked_phase)
  from wait_for_continue_extend [OF w1, of "[m]"]
  have e1: "wait_for LoginWait search_login st2 (pre @ [m]) = Continue b1 st3 (ms1 @ [m])" .
  from wait_for_blocked_closed [OF w2 assms(2), of "[]"] obtain b where
    e2: "wait_for AuxWait search_aux (emit (Status WaitingAux) st3) (ms1 @ [m]) = Continue b st []"
    by blast
  have nb: "\<not> search_combined (sanitize (base_name cfg)) []"
    by (simp add: search_combined_def SAVELOAD_IN_PROGRESS_def header_marker_def START_HEADER_def)
  show ?thesis using s e1 e2 assms(3) nb
    unfolding await_header_def Let_def by (simp add: wait_for_def sendall_def)
qed

lemma await_header_header_closed:
  assumes "await_header cfg (ev\<lparr>moments := pre\<rparr>) st0 = Stop (Blocked HeaderWait) st"
    and "arrival m = Data []"
  shows "\<exists>b. \<not> contains SAVELOAD_IN_PROGRESS b \<and>
           await_header cfg (ev\<lparr>moments := pre @ [m]\<rparr>) st0 = Continue b st []"
proof -
  let ?st1 = "emit (Status SendingLogin)
                ((emit (Status ConnectedWaitLogin) st0)\<lparr>out_file := [], dbg_file := []\<rparr>)"
  from assms(1) obtain st2 b1 st3 ms1 b2 st4 ms2 st6 where
    s: "sendall ev 0 (username cfg @ [CR, LF]) ?st1 = Inr st2"
    and w1: "wait_for LoginWait search_login st2 pre = Continue b1 st3 ms1"
    and w2: "wait_for AuxWait search_aux (emit (Status WaitingAux) st3) ms1 = Continue b2 st4 ms2"
    and s1: "sendall ev 1 (save_command cfg) (emit (Status IssuingSave) st4) = Inr st6"
    and w3: "wait_for HeaderWait (search_combined (sanitize (base_name cfg)))
               (emit (Status WaitingHeader) st6) ms2 = Stop (Blocked HeaderWait) st"
    unfolding await_header_def Let_def
    by (auto split: sum.splits step.splits dest: wait_for_blocked_phase)
  from wait_for_continue_extend [OF w1, of "[m]"]
  have e1: "wait_for LoginWait search_login st2 (pre @ [m]) = Continue b1 st3 (ms1 @ [m])" .
  from wait_for_continue_extend [OF w2, of "[m]"]
  have e2: "wait_for AuxWait search_aux (emit (Status WaitingAux) st3) (ms1 @ [m])
              = Continue b2 st4 (ms2 @ [m])" .
  from wait_for_blocked_closed [OF w3 assms(2), of "[]"] obtain b where
    b: "\<not> search_combined (sanitize (base_name cfg)) b"
    and e3: "wait_for HeaderWait (search_combined (sanitize (base_name cfg)))
               (emit (Status WaitingHeader) st6) (ms2 @ [m]) = Continue b st []"
    by blast
  have "await_header cfg (ev\<lparr>moments := pre @ [m]\<rparr>) st0 = Continue b st []"
    using s e1 e2 s1 e3 unfolding await_header_def Let_def by simp
  then show ?thesis using b by (auto simp: search_combined_def)
qed

lemma connect_loop_failures:
  assumes "\<forall>a\<in>{k..<n}. conn a \<noteq> None" and "n \<le> retries" and "k \<le> n"
  shows "connect_loop conn retries [k..retries] st =
         connect_loop conn retries [n..retries]
           (st\<lparr>trace := trace st @ concat (map retry_effects [k..n - 1])\<rparr>)"
  using assms
proof (induction "nat (n - k)" arbitrary: k st)
  case 0
  then have "k = n" by simp
  then show ?case by simp
next
  case (Suc d)
  then have kn: "k < n" by simp
  then obtain e where e: "conn k = Some e" using Suc.prems(1) by fastforce
  have l: "[k..retries] = k # [k + 1..retries]" using kn Suc.prems(2) by (simp add: upto_rec1)
  have l2: "[k..n - 1] = k # [k + 1..n - 1]" using kn by (simp add: upto_rec1)
  let ?st = "emit SleepRetry (emit (Status ConnectRetry) (emit (Status (Connecting k)) st))"
  have "connect_loop conn retries [k..retries] st = connect_loop conn retries [k + 1..retries] ?st"
    using e kn Suc.prems(2) by (simp add: l Let_def)
  also have "\<dots> = connect_loop conn retries [n..retries]
      (?st\<lparr>trace := trace ?st @ concat (map retry_effects [k + 1..n - 1])\<rparr>)"
  proof (rule Suc.hyps(1))
    show "d = nat (n - (k + 1))" using Suc.hyps(2) by simp
    show "\<forall>a\<in>{k + 1..<n}. conn a \<noteq> None" using Suc.prems(1) by simp
    show "n \<le> retries" by fact
    show "k + 1 \<le> n" using kn by simp
  qed
  also have "?st\<lparr>trace := trace ?st @ concat (map retry_effects [k + 1..n - 1])\<rparr>
      = st\<lparr>trace := trace st @ concat (map retry_effects [k..n - 1])\<rparr>"
    by (simp add: l2 retry_effects_def emit_def)
  finally show ?case .
qed

lemma connect_closed_form:
  assumes "1 \<le> n" and "n \<le> connect_retries cfg"
    and "\<forall>a\<in>{1..<n}. connects ev a \<noteq> None"
    and "connects ev n = None \<or> n = connect_retries cfg"
  shows "connect cfg ev st =
           (connects ev n,
            st\<lparr>trace := trace st @ concat (map retry_effects [1..n - 1]) @ [Status (Connecting n)]
                   @ (case connects ev n of None \<Rightarrow> [] | Some e \<Rightarrow> [Error e])\<rparr>)"
proof -
  let ?st = "st\<lparr>trace := trace st @ concat (map retry_effects [1..n - 1])\<rparr>"
  have l: "[n..connect_retries cfg] = n # [n + 1..connect_retries cfg]"
    using assms(2) by (simp add: upto_rec1)
  have "connect cfg ev st
          = connect_loop (connects ev) (connect_retries cfg) [n..connect_retries cfg] ?st"
    unfolding connect_def by (rule connect_loop_failures [OF assms(3,2,1)])
  also have "\<dots> = (connects ev n,
            st\<lparr>trace := trace st @ concat (map retry_effects [1..n - 1]) @ [Status (Connecting n)]
                   @ (case connects ev n of None \<Rightarrow> [] | Some e \<Rightarrow> [Error e])\<rparr>)"
    using assms(4) by (auto simp: l Let_def emit_def split: option.splits)
  finally show ?thesis .
qed

lemma sent_of_append [simp]: "sent_of (xs @ ys) = sent_of xs @ sent_of ys"
  by (simp add: sent_of_def)

lemma sent_of_Cons [simp]:
  "sent_of (e # es) = (case e of Sent b \<Rightarrow> [b] | _ \<Rightarrow> []) @ sent_of es"
  by (simp add: sent_of_def)

lemma sent_of_Nil [simp]: "sent_of [] = []"
  by (simp add: sent_of_def)

lemma progress_while_sent:
  assumes "progress_while i st = Some st'"
  shows "sent_of (trace st') = sent_of (trace st)"
  by (rule progress_while.raw_induct [OF _ assms,
        where P = "\<lambda>i st st'. sent_of (trace st') = sent_of (trace st)"])
     (auto split: if_splits)

lemma drain_sent: "drain i st = Some st' \<Longrightarrow> sent_of (trace st') = sent_of (trace st)"
proof (induction "length (buffer st)" arbitrary: st rule: less_induct)
  case less
  show ?case
  proof (cases "search_rec (buffer st)")
    case None
    then show ?thesis using less.prems by (simp add: drain_None)
  next
    case (Some m)
    obtain s e where m: "m = (s, e)" by (cases m)
    have sr: "search_rec (buffer st) = Some (s, e)" using Some m by simp
    from less.prems(1) drain_Some [OF sr, of i] obtain st2 where
      pw: "progress_while i
             (st\<lparr>out_file := out_file st @ payload_of (take (e - s) (drop s (buffer st))),
                 total_written := total_written st
                    + int (length (payload_of (take (e - s) (drop s (buffer st)))))\<rparr>) = Some st2"
      and d: "drain i (st2\<lparr>buffer := drop e (buffer st)\<rparr>) = Some st'"
      by (auto split: option.splits)
    have "length (buffer (st2\<lparr>buffer := drop e (buffer st)\<rparr>)) < length (buffer st)"
      using search_rec_bounds [OF sr] by auto
    from less.hyps [OF this d] progress_while_sent [OF pw] show ?thesis by simp
  qed
qed

lemma stream_loop_sent:
  "stream_loop i ms st = Some (r, st') \<Longrightarrow> sent_of (trace st') = sent_of (trace st)"
proof (induction ms arbitrary: st)
  case Nil
  then show ?case by simp
next
  case (Cons m ms)
  show ?case
  proof (cases "cancel_requested m \<or> (\<exists>e. arrival m = RecvRaises e \<and> e \<noteq> SocketTimeout)")
    case True
    then have "st' = st" using Cons.prems(1) by (auto split: recv_result.splits if_splits)
    then show ?thesis by simp
  next
    case False
    then have "quiet m" by (auto simp: quiet_def split: recv_result.splits)
    note loop = stream_loop_quiet [OF this, of i ms st]
    from Cons.prems(1) loop obtain st1 where
      f: "feed i (chunk_of m) st = Some st1" by (auto split: option.splits)
    have s1: "sent_of (trace st1) = sent_of (trace st)"
      using f drain_sent [of i _ st1] by (auto simp: feed_def split: if_splits)
    show ?thesis
    proof (cases "contains EOT_MARKER (buffer st1)")
      case True
      then have "st' = st1" using Cons.prems(1) loop f by simp
      then show ?thesis using s1 by simp
    next
      case False
      then have "stream_loop i ms st1 = Some (r, st')" using Cons.prems(1) loop f by simp
      from Cons.IH [OF this] s1 show ?thesis by simp
    qed
  qed
qed

lemma connect_loop_sent:
  "connect_loop conn n as st = (r, st') \<Longrightarrow> sent_of (trace st') = sent_of (trace st)"
  by (induction as arbitrary: st) (auto simp: Let_def split: option.splits if_splits)

lemma await_header_sent:
  assumes "sent_of (trace st0) = []"
  shows "await_header cfg ev st0 = Continue b st rest \<Longrightarrow> sent_of (trace st) = take 2 (wire cfg)"
    and "await_header cfg ev st0 = Stop r st \<Longrightarrow> on_wire cfg st"
  using assms unfolding await_header_def Let_def sendall_def on_wire_def
  by (auto split: option.splits sum.splits step.splits
      simp: wire_def save_command_def dest!: wait_for_trace)

lemma after_header_sent:
  assumes "after_header cfg ev buf st ms = Some (r, st')"
    and "sent_of (trace st) = take 2 (wire cfg)"
  shows "on_wire cfg st'"
  using assms unfolding after_header_def Let_def sendall_def on_wire_def
  by (auto split: option.splits sum.splits if_splits outcome.splits
      simp: wire_def dest!: stream_loop_sent)

lemma contains_set: "contains p bs \<Longrightarrow> set p \<subseteq> set bs"
  by (auto simp: contains_iff)

section \<open>The streaming loop: claims\<close>

text \<open>Two records, the second with the escape prefix, and a delivery of their stream in
  pieces, with a timeout and an empty read in between.\<close>

definition two_records :: "(bool \<times> bytes) list" where
  "two_records = [(False, ''hello''), (True, ''world'')]"

definition trickle :: "moment list" where
  "trickle =
     [Moment False (Data ([CHR 0x05, CHR 0x02] @ ''Dhel'')),
      Moment False (RecvRaises SocketTimeout),
      Moment False (Data (''lo'' @ [CR, ETB, CHR 0x05, CHR 0x02] @ ''Dworld'' @ [CR, CHR 0x05, CHR 0x02])),
      Moment False (Data []),
      Moment False (Data [CHR ''E'', CHR 0x17])]"

lemmas stream_defs =
  transport_stream_def encode_record_def decoded_payload_def well_formed_record_def eot_free_def
  delivered_def chunk_of_def quiet_def

subsection \<open>Records are written in arrival order\<close>

text \<open>
  Claim C1 says that for every stream of well-formed records followed by the end marker
  the loop writes the decoded payloads in order. The loop tests for the end marker in
  whatever is left in the buffer after each read, also when that is the beginning of a
  record. So a record whose payload holds the four bytes of the end marker ends the loop
  when a read stops between these bytes and the record's carriage return: here the
  second record is lost, and the loop returns with the first one only. And with a
  progress interval of zero the loop does not return at all once a record has been
  written: the inner progress loop never ends.
\<close>

definition lost_records :: "(bool \<times> bytes) list" where
  "lost_records = [(False, ''hello''), (False, ''ab'' @ EOT_MARKER @ ''cd'')]"

definition lost_delivery :: "moment list" where
  "lost_delivery =
     [Moment False (Data (take 20 (transport_stream lost_records))),
      Moment False (Data (drop 20 (transport_stream lost_records)))]"

theorem end_marker_in_payload_or_zero_interval:
  "list_all well_formed_record lost_records \<and> list_all quiet lost_delivery \<and>
   delivered lost_delivery = transport_stream lost_records \<and>
   summary (stream_loop DEFAULT_PROGRESS_INTERVAL lost_delivery init_state)
     = Some (Returned, ''hello'' @ [CR, LF], 7) \<and>
   concat (map decoded_payload lost_records) \<noteq> ''hello'' @ [CR, LF] \<and>
   list_all well_formed_record two_records \<and> list_all eot_free two_records \<and>
   stream_loop 0 [Moment False (Data (transport_stream two_records))] init_state = None"
proof -
  have a: "list_all well_formed_record lost_records \<and> list_all quiet lost_delivery \<and>
     delivered lost_delivery = transport_stream lost_records \<and>
     summary (stream_loop DEFAULT_PROGRESS_INTERVAL lost_delivery init_state)
       = Some (Returned, ''hello'' @ [CR, LF], 7) \<and>
     concat (map decoded_payload lost_records) \<noteq> ''hello'' @ [CR, LF]"
    by (simp add: lost_records_def lost_delivery_def stream_defs eval_defs)
  have b: "list_all well_formed_record two_records \<and> list_all eot_free two_records"
    by (simp add: two_records_def well_formed_record_def eot_free_def EOT_MARKER_def CR_def LF_def)
  have c: "stream_loop 0 [Moment False (Data (transport_stream two_records))] init_state = None"
    by (rule whole_stream_nonpos_None)
       (simp_all add: two_records_def well_formed_record_def init_state_def CR_def LF_def)
  show ?thesis using a b c by blast
qed

text \<open>
  Claim C1, amended: with a positive progress interval, for every stream of \<open>N\<close>
  well-formed records whose payloads do not hold the bytes of the end marker, followed
  by the end marker, and for every delivery of this stream (in any pieces, with timeouts
  and empty reads in between, no cancellation and no failing read), the loop returns,
  the output artifact is the concatenation of the \<open>N\<close> decoded payloads in arrival
  order, and \<^verbatim>\<open>total_written\<close> is the length of the artifact.
\<close>

theorem records_written_in_order:
  assumes "0 < interval"
    and "\<forall>r\<in>set rs. well_formed_record r \<and> eot_free r"
    and "\<forall>m\<in>set ms. quiet m"
    and "delivered ms = transport_stream rs"
    and "buffer st = []" and "out_file st = []" and "total_written st = 0"
  shows "\<exists>st'. stream_loop interval ms st = Some (Returned, st') \<and>
           out_file st' = concat (map decoded_payload rs) \<and>
           total_written st' = int (length (out_file st'))"
proof -
  have "buffer st @ delivered ms = transport_stream rs" using assms(4,5) by simp
  moreover have "search_rec (buffer st) = None" using assms(5) by simp
  moreover have "\<not> contains EOT_MARKER (buffer st)" using assms(5) by (simp add: EOT_MARKER_def)
  ultimately obtain st' where
    "stream_loop interval ms st = Some (Returned, st')"
    "out_file st' = out_file st @ concat (map decoded_payload rs)"
    "total_written st' = total_written st + int (length (concat (map decoded_payload rs)))"
    using stream_loop_delivers [OF disjI1 [OF assms(1)] assms(2,3)] by blast
  then show ?thesis using assms(6,7) by simp
qed

theorem records_written_in_order_witness:
  "\<exists>st'. stream_loop 3 trickle init_state = Some (Returned, st') \<and>
         out_file st' = ''hello'' @ [CR, LF] @ ''world'' @ [CR, LF] \<and>
         total_written st' = 14"
proof -
  have "\<exists>st'. stream_loop 3 trickle init_state = Some (Returned, st') \<and>
          out_file st' = concat (map decoded_payload two_records) \<and>
          total_written st' = int (length (out_file st'))"
    by (rule records_written_in_order)
       (simp_all add: two_records_def trickle_def stream_defs init_state_def
          EOT_MARKER_def REC_MARKER_def CR_def LF_def ETB_def)
  then obtain st' where
    "stream_loop 3 trickle init_state = Some (Returned, st')"
    "out_file st' = concat (map decoded_payload two_records)"
    "total_written st' = int (length (out_file st'))"
    by blast
  then show ?thesis
    by (intro exI [of _ st']) (simp add: two_records_def decoded_payload_def)
qed

subsection \<open>The concrete scenario\<close>

definition scenario_E :: "moment list" where
  "scenario_E =
     [Moment False (Data ([CHR 0x05, CHR 0x02] @ ''Dhello'' @ [CR])),
      Moment False (Data ([CHR 0x05, CHR 0x02] @ ''Eworld'' @ [CR])),
      Moment False (Data EOT_MARKER)]"

definition scenario_D :: "moment list" where
  "scenario_D =
     [Moment False (Data ([CHR 0x05, CHR 0x02] @ ''Dhello'' @ [CR])),
      Moment False (Data ([CHR 0x05, CHR 0x02] @ ''Dworld'' @ [CR])),
      Moment False (Data EOT_MARKER)]"

text \<open>
  Claim C2, as the code has it. On the input \<^verbatim>\<open>\x05\x02Dhello\r\<close>, then
  \<^verbatim>\<open>\x05\x02Eworld\r\<close>, then the end marker, the loop returns with the output
  \<^verbatim>\<open>hello\r\n\<close> and \<^verbatim>\<open>total_written = 7\<close>: the second span carries the byte E where a
  data record has D, so the expression does not match it. With D in its place the output
  is \<^verbatim>\<open>hello\r\nworld\r\n\<close> and \<^verbatim>\<open>total_written = 14\<close>, the length of the output.
\<close>

theorem scenario_output:
  "summary (stream_loop DEFAULT_PROGRESS_INTERVAL scenario_E init_state)
     = Some (Returned, ''hello'' @ [CR, LF], 7) \<and>
   summary (stream_loop DEFAULT_PROGRESS_INTERVAL scenario_D init_state)
     = Some (Returned, ''hello'' @ [CR, LF] @ ''world'' @ [CR, LF], 14)"
  by (simp add: scenario_E_def scenario_D_def eval_defs)

text \<open>The scenario as the specification states it (both records written, 12 bytes) fails.\<close>

theorem scenario_as_stated_fails:
  "summary (stream_loop DEFAULT_PROGRESS_INTERVAL scenario_E init_state)
     \<noteq> Some (Returned, ''hello'' @ [CR, LF] @ ''world'' @ [CR, LF], 12)"
  by (simp add: scenario_E_def eval_defs)

subsection \<open>Fragmentation\<close>

text \<open>
  Claim C3 says that a well-formed stream delivered in two pieces, split anywhere, gives
  the output of the delivery in one piece. It fails for the same reason as C1: a record
  whose payload starts with the bytes of the end marker, split right after them, ends
  the loop with nothing written, while the whole stream in one piece gives the payload.
\<close>

definition marker_payload :: "(bool \<times> bytes) list" where
  "marker_payload = [(True, EOT_MARKER @ ''x'')]"

theorem split_after_end_marker_bytes_loses_the_record:
  "list_all well_formed_record marker_payload \<and>
   summary (stream_loop DEFAULT_PROGRESS_INTERVAL
             [Moment False (Data (take 8 (transport_stream marker_payload))),
              Moment False (Data (drop 8 (transport_stream marker_payload)))] init_state)
     = Some (Returned, [], 0) \<and>
   summary (stream_loop DEFAULT_PROGRESS_INTERVAL
             [Moment False (Data (transport_stream marker_payload))] init_state)
     = Some (Returned, EOT_MARKER @ ''x'' @ [CR, LF], 7)"
  by (simp add: marker_payload_def stream_defs eval_defs)

text \<open>
  Claim C3, amended: for every stream of well-formed records whose payloads do not hold
  the bytes of the end marker, followed by the end marker, and every split point \<open>k\<close>
  (inside a record or not), the delivery in the two pieces before and after \<open>k\<close> ends
  as the delivery in one piece does: with the same outcome, the same output artifact and
  the same \<^verbatim>\<open>total_written\<close>. With a positive progress interval both return; with
  another interval and at least one record neither does.
\<close>

theorem fragmentation_independence:
  assumes "\<forall>r\<in>set rs. well_formed_record r \<and> eot_free r"
    and "buffer st = []" and "last_report st \<le> total_written st"
  shows "summary (stream_loop interval
                   [Moment False (Data (take k (transport_stream rs))),
                    Moment False (Data (drop k (transport_stream rs)))] st)
           = summary (stream_loop interval [Moment False (Data (transport_stream rs))] st) \<and>
         (0 < interval \<longrightarrow>
           (\<exists>st'. stream_loop interval [Moment False (Data (transport_stream rs))] st
                    = Some (Returned, st')))"
proof (cases "0 < interval \<or> rs = []")
  case True
  let ?two = "[Moment False (Data (take k (transport_stream rs))),
               Moment False (Data (drop k (transport_stream rs)))]"
  let ?one = "[Moment False (Data (transport_stream rs))]"
  have s: "search_rec (buffer st) = None" "\<not> contains EOT_MARKER (buffer st)"
    using assms(2) by (simp_all add: EOT_MARKER_def)
  have "\<forall>m\<in>set ?two. quiet m" "buffer st @ delivered ?two = transport_stream rs"
    using assms(2) by (simp_all add: quiet_def delivered_def chunk_of_def)
  from stream_loop_delivers [OF True assms(1) this s] obtain st1 where
    1: "stream_loop interval ?two st = Some (Returned, st1)"
    "out_file st1 = out_file st @ concat (map decoded_payload rs)"
    "total_written st1 = total_written st + int (length (concat (map decoded_payload rs)))"
    by blast
  have "\<forall>m\<in>set ?one. quiet m" "buffer st @ delivered ?one = transport_stream rs"
    using assms(2) by (simp_all add: quiet_def delivered_def chunk_of_def)
  from stream_loop_delivers [OF True assms(1) this s] obtain st2 where
    2: "stream_loop interval ?one st = Some (Returned, st2)"
    "out_file st2 = out_file st @ concat (map decoded_payload rs)"
    "total_written st2 = total_written st + int (length (concat (map decoded_payload rs)))"
    by blast
  show ?thesis using 1 2 by (simp add: summary_def)
next
  case False
  then have i: "interval \<le> 0" and ne: "rs \<noteq> []" by auto
  have wf: "\<forall>r\<in>set rs. well_formed_record r" using assms(1) by simp
  show ?thesis
    using two_pieces_nonpos_None [OF i ne assms, of k]
      whole_stream_nonpos_None [OF i ne wf assms(2,3)] i
    by (simp add: summary_def)
qed

theorem fragmentation_independence_witness:
  "summary (stream_loop 3
       [Moment False (Data (take 5 (transport_stream two_records))),
        Moment False (Data (drop 5 (transport_stream two_records)))] init_state)
     = summary (stream_loop 3 [Moment False (Data (transport_stream two_records))] init_state) \<and>
   (\<exists>st'. stream_loop 3 [Moment False (Data (transport_stream two_records))] init_state
            = Some (Returned, st'))"
  using fragmentation_independence [of two_records init_state 3 5]
  by (simp add: two_records_def well_formed_record_def eot_free_def init_state_def
      EOT_MARKER_def CR_def LF_def del: stream_loop.simps)

subsection \<open>Timeouts and empty reads in the loop\<close>

lemma feed_drained: "feed i c st = Some st' \<Longrightarrow> search_rec (buffer st') = None"
  unfolding feed_def by (rule drain_drained)

lemma stream_loop_returned:
  "stream_loop i ns st = Some (Returned, st') \<Longrightarrow>
   contains EOT_MARKER (buffer st') \<and> search_rec (buffer st') = None"
proof (induction ns arbitrary: st)
  case Nil
  then show ?case by simp
next
  case (Cons n ns)
  then show ?case
    by (auto split: if_splits recv_result.splits option.splits sum.splits dest: feed_drained)
qed

lemma stream_loop_raised:
  "stream_loop i ns st = Some (Raised e, st') \<Longrightarrow>
   (e = BackupCancelled \<and> (\<exists>n\<in>set ns. cancel_requested n)) \<or>
   (e \<noteq> SocketTimeout \<and> (\<exists>n\<in>set ns. arrival n = RecvRaises e))"
proof (induction ns arbitrary: st)
  case Nil
  then show ?case by simp
next
  case (Cons n ns)
  show ?case
  proof (cases "cancel_requested n \<or> (\<exists>x. arrival n = RecvRaises x \<and> x \<noteq> SocketTimeout)")
    case True
    then show ?thesis using Cons.prems by (auto split: if_splits recv_result.splits)
  next
    case False
    then have "quiet n" by (auto simp: quiet_def split: recv_result.splits)
    note loop = stream_loop_quiet [OF this, of i ns st]
    from Cons.prems loop obtain st1 where
      "feed i (chunk_of n) st = Some st1" "stream_loop i ns st1 = Some (Raised e, st')"
      by (auto split: option.splits if_splits)
    from Cons.IH [OF this(2)] show ?thesis by auto
  qed
qed

text \<open>
  Claim C6: in an iteration of the streaming loop whose read times out, the loop goes on
  as with an empty chunk; a timeout or an empty read (a closed connection) does not end
  the loop: when the drained buffer does not hold the end marker, the loop goes to the
  next read. The loop returns only with the end marker in the drained buffer, and it
  raises only on cancellation or on a read that raises something else than a timeout.
\<close>

theorem timeout_and_empty_read_continue:
  assumes "\<not> cancel_requested m"
    and "arrival m = RecvRaises SocketTimeout \<or> arrival m = Data []"
  shows "stream_loop i (m # ms) st = stream_loop i (Moment False (Data []) # ms) st \<and>
         (\<forall>st'. drain i st = Some st' \<and> \<not> contains EOT_MARKER (buffer st') \<longrightarrow>
                stream_loop i (m # ms) st = stream_loop i ms st') \<and>
         (\<forall>ns st'. stream_loop i ns st = Some (Returned, st') \<longrightarrow>
                contains EOT_MARKER (buffer st') \<and> search_rec (buffer st') = None) \<and>
         (\<forall>ns e st'. stream_loop i ns st = Some (Raised e, st') \<longrightarrow>
                (e = BackupCancelled \<and> (\<exists>n\<in>set ns. cancel_requested n)) \<or>
                (e \<noteq> SocketTimeout \<and> (\<exists>n\<in>set ns. arrival n = RecvRaises e)))"
proof -
  have q: "quiet m" "chunk_of m = []"
    using assms by (auto simp: quiet_def chunk_of_def)
  have 1: "stream_loop i (m # ms) st = stream_loop i (Moment False (Data []) # ms) st"
    using assms by (auto simp: feed_def)
  have 2: "\<forall>st'. drain i st = Some st' \<and> \<not> contains EOT_MARKER (buffer st') \<longrightarrow>
                stream_loop i (m # ms) st = stream_loop i ms st'"
    using stream_loop_quiet [OF q(1), of i ms st] q(2) by (simp add: feed_def)
  show ?thesis using 1 2 stream_loop_returned stream_loop_raised by blast
qed

theorem timeout_and_empty_read_continue_witness:
  "stream_loop 3
     [Moment False (RecvRaises SocketTimeout), Moment False (Data []),
      Moment False (Data (transport_stream two_records))] init_state
     = stream_loop 3 [Moment False (Data (transport_stream two_records))] init_state \<and>
   (\<exists>st'. stream_loop 3 [Moment False (Data (transport_stream two_records))] init_state
            = Some (Returned, st') \<and>
          contains EOT_MARKER (buffer st') \<and> search_rec (buffer st') = None)"
proof -
  let ?t = "Moment False (RecvRaises SocketTimeout)"
  let ?z = "Moment False (Data [])"
  let ?d = "Moment False (Data (transport_stream two_records))"
  have d: "drain 3 init_state = Some init_state" "\<not> contains EOT_MARKER (buffer init_state)"
    by (simp_all add: drain_None init_state_def EOT_MARKER_def)
  have 1: "stream_loop 3 (?t # [?z, ?d]) init_state = stream_loop 3 [?z, ?d] init_state"
    using timeout_and_empty_read_continue [of ?t 3 "[?z, ?d]" init_state] d by simp
  have 2: "stream_loop 3 (?z # [?d]) init_state = stream_loop 3 [?d] init_state"
    using timeout_and_empty_read_continue [of ?z 3 "[?d]" init_state] d by simp
  obtain st' where r: "stream_loop 3 [?d] init_state = Some (Returned, st')"
    by (simp add: two_records_def stream_defs eval_defs)
  have "\<forall>ns st'. stream_loop 3 ns init_state = Some (Returned, st') \<longrightarrow>
          contains EOT_MARKER (buffer st') \<and> search_rec (buffer st') = None"
    using timeout_and_empty_read_continue [of ?t 3 "[]" init_state]
    by (simp del: stream_loop.simps)
  then have 3: "contains EOT_MARKER (buffer st') \<and> search_rec (buffer st') = None"
    using r by blast
  show ?thesis using 1 2 3 r by simp
qed

subsection \<open>Progress notifications\<close>

lemma settled_reports:
  assumes "settled i st"
  shows "sorted_wrt (<) (map fst (reports (trace st))) \<and>
         list_all (\<lambda>v. 0 < v \<and> i dvd v) (map fst (reports (trace st))) \<and>
         list_all (\<lambda>p. fst p \<le> snd p \<and> snd p \<le> total_written st) (reports (trace st))"
proof (cases "0 < i")
  case True
  let ?n = "length (reports (trace st))"
  have eq: "map fst (reports (trace st)) = map (\<lambda>k. i * int (Suc k)) [0..<?n]"
    using assms by (simp add: settled_def paced_def)
  have "sorted_wrt (\<lambda>x y. i * int (Suc x) < i * int (Suc y)) [0..<?n]"
    by (rule sorted_wrt_mono_rel [of _ "(<)"]) (use True in auto)
  then have 1: "sorted_wrt (<) (map fst (reports (trace st)))"
    by (simp only: eq sorted_wrt_map)
  have 2: "list_all (\<lambda>v. 0 < v \<and> i dvd v) (map fst (reports (trace st)))"
    using True by (simp only: eq) (simp add: list_all_iff)
  show ?thesis using 1 2 assms by (simp add: settled_def paced_def)
next
  case False
  then have "reports (trace st) = []" using assms by (simp add: settled_def paced_def)
  then show ?thesis by simp
qed

lemma drain_total: "0 < i \<Longrightarrow> \<exists>st'. drain i st = Some st'"
proof (induction "length (buffer st)" arbitrary: st rule: less_induct)
  case less
  show ?case
  proof (cases "search_rec (buffer st)")
    case None
    then show ?thesis by (simp add: drain_None)
  next
    case (Some m)
    obtain s e where sr: "search_rec (buffer st) = Some (s, e)" using Some by (cases m) auto
    let ?p = "payload_of (take (e - s) (drop s (buffer st)))"
    let ?st1 = "st\<lparr>out_file := out_file st @ ?p,
                  total_written := total_written st + int (length ?p)\<rparr>"
    obtain st2 where pw: "progress_while i ?st1 = Some st2"
      using progress_while_terminates [OF less.prems] by blast
    have "length (buffer (st2\<lparr>buffer := drop e (buffer st)\<rparr>)) < length (buffer st)"
      using search_rec_bounds [OF sr] by auto
    from less.hyps [OF this less.prems] obtain st' where
      "drain i (st2\<lparr>buffer := drop e (buffer st)\<rparr>) = Some st'" by blast
    then show ?thesis using drain_Some [OF sr, of i] pw by simp
  qed
qed

lemma stream_loop_total: "0 < i \<Longrightarrow> \<exists>r st'. stream_loop i ms st = Some (r, st')"
proof (induction ms arbitrary: st)
  case Nil
  then show ?case by simp
next
  case (Cons m ms)
  show ?case
  proof (cases "cancel_requested m \<or> (\<exists>e. arrival m = RecvRaises e \<and> e \<noteq> SocketTimeout)")
    case True
    then show ?thesis by (auto split: recv_result.splits)
  next
    case False
    then have "quiet m" by (auto simp: quiet_def split: recv_result.splits)
    note loop = stream_loop_quiet [OF this, of i ms st]
    obtain st1 where f: "feed i (chunk_of m) st = Some st1"
      using drain_total [OF Cons.prems] unfolding feed_def by blast
    show ?thesis
    proof (cases "contains EOT_MARKER (buffer st1)")
      case True
      then show ?thesis using loop f by simp
    next
      case False
      then show ?thesis using loop f Cons.IH [OF Cons.prems, of st1] by simp
    qed
  qed
qed

lemma reports_of_result:
  assumes "stream_loop interval ms st0 = Some (r, st)"
    and "total_written st0 = 0" and "last_report st0 = 0" and "reports (trace st0) = []"
  shows "sorted_wrt (<) (map fst (reports (trace st))) \<and>
         list_all (\<lambda>v. 0 < v \<and> interval dvd v) (map fst (reports (trace st))) \<and>
         list_all (\<lambda>p. fst p \<le> snd p \<and> snd p \<le> total_written st) (reports (trace st)) \<and>
         length (reports (trace st)) = nat (total_written st div interval)"
proof -
  have "settled interval st0" using assms(2-4) by (simp add: settled_def paced_def)
  from stream_loop_settled [OF assms(1) this] have "settled interval st" .
  then show ?thesis using settled_reports settled_count by blast
qed

text \<open>
  The loop of lines 230 to 232 after \<open>n\<close> rounds of its body: \<open>None\<close> when the loop has
  ended before. And the state in which this loop is entered when the one record
  \<^verbatim>\<open>\x05\x02Dhello\r\<close> has been read and its payload written.
\<close>

fun progress_rounds :: "nat \<Rightarrow> int \<Rightarrow> state \<Rightarrow> state option" where
  "progress_rounds 0 interval st = Some st"
| "progress_rounds (Suc n) interval st =
     (if total_written st \<ge> last_report st + interval
      then progress_rounds n interval
             (st\<lparr>last_report := last_report st + interval,
                 trace := trace st @ [Progress (last_report st + interval) (total_written st)]\<rparr>)
      else None)"

definition hello_record :: bytes where
  "hello_record = [CHR 0x05, CHR 0x02] @ ''Dhello'' @ [CR]"

definition hello_written :: state where
  "hello_written = init_state\<lparr>out_file := ''hello'' @ [CR, LF], dbg_file := hello_record,
                                buffer := hello_record, total_written := 7\<rparr>"

lemma progress_rounds_while:
  "progress_rounds n i st = Some st' \<Longrightarrow> progress_while i st = progress_while i st'"
proof (induction n arbitrary: st)
  case 0
  then show ?case by simp
next
  case (Suc n)
  then show ?case by (subst progress_while.simps) (auto split: if_splits)
qed

lemma progress_rounds_zero:
  "last_report st \<le> total_written st \<Longrightarrow>
   \<exists>st'. progress_rounds n 0 st = Some st' \<and>
         reports (trace st') = reports (trace st) @ replicate n (last_report st, total_written st) \<and>
         last_report st' = last_report st \<and> total_written st' = total_written st"
proof (induction n arbitrary: st)
  case 0
  then show ?case by simp
next
  case (Suc n)
  let ?st = "st\<lparr>last_report := last_report st + 0,
               trace := trace st @ [Progress (last_report st + 0) (total_written st)]\<rparr>"
  have "last_report ?st \<le> total_written ?st" using Suc.prems by simp
  from Suc.IH [OF this] obtain st' where
    "progress_rounds n 0 ?st = Some st'"
    "reports (trace st') = reports (trace ?st) @ replicate n (last_report ?st, total_written ?st)"
    "last_report st' = last_report ?st" "total_written st' = total_written ?st"
    by blast
  then show ?case using Suc.prems by (simp add: replicate_append_same)
qed

text \<open>
  Claim C7 speaks of every run of the streaming loop. With a progress interval of zero
  it fails: once the first payload is written, the condition of the inner loop holds in
  every round, each round reports the value 0, and the loop never ends. The values
  reported are not positive and not increasing, and there is no final
  \<^verbatim>\<open>total_written\<close>.
\<close>

theorem zero_interval_reports_zero_without_end:
  "feed 0 hello_record init_state
     = (case progress_while 0 hello_written of
          None \<Rightarrow> None
        | Some st' \<Rightarrow> drain 0 (st'\<lparr>buffer := []\<rparr>)) \<and>
   (\<forall>n. \<exists>st. progress_rounds n 0 hello_written = Some st \<and>
              map fst (reports (trace st)) = replicate n 0 \<and>
              progress_while 0 hello_written = progress_while 0 st) \<and>
   (\<exists>st. progress_rounds 2 0 hello_written = Some st \<and>
         map fst (reports (trace st)) = [0, 0] \<and>
         \<not> sorted_wrt (<) (map fst (reports (trace st))) \<and>
         \<not> list_all (\<lambda>v. 0 < v) (map fst (reports (trace st)))) \<and>
   stream_loop 0 [Moment False (Data hello_record)] init_state = None"
proof -
  have sr: "search_rec (buffer (init_state\<lparr>dbg_file := hello_record, buffer := hello_record\<rparr>))
              = Some (0, 9)"
    by (simp add: hello_record_def match_here_def REC_MARKER_def ETB_def CR_def LF_def)
  have a: "feed 0 hello_record init_state
     = (case progress_while 0 hello_written of
          None \<Rightarrow> None
        | Some st' \<Rightarrow> drain 0 (st'\<lparr>buffer := []\<rparr>))"
  proof -
    have e: "drop 9 (buffer (init_state\<lparr>dbg_file := hello_record, buffer := hello_record\<rparr>)) = []"
      by (simp add: hello_record_def)
    show ?thesis
      using drain_Some [OF sr, of 0, unfolded e]
      by (simp add: feed_def hello_written_def hello_record_def init_state_def payload_of_def
          ETB_def CR_def LF_def)
  qed
  have l: "last_report hello_written \<le> total_written hello_written"
    by (simp add: hello_written_def init_state_def)
  have r: "reports (trace hello_written) = []"
    by (simp add: hello_written_def init_state_def reports_def)
  have b: "\<exists>st. progress_rounds n 0 hello_written = Some st \<and>
              map fst (reports (trace st)) = replicate n 0 \<and>
              progress_while 0 hello_written = progress_while 0 st" for n
  proof -
    from progress_rounds_zero [OF l, of n] obtain st where
      s: "progress_rounds n 0 hello_written = Some st"
      "reports (trace st) = reports (trace hello_written)
          @ replicate n (last_report hello_written, total_written hello_written)"
      by blast
    have "map fst (reports (trace st)) = replicate n 0"
      using s(2) r by (simp add: hello_written_def init_state_def)
    then show ?thesis using s(1) progress_rounds_while [OF s(1)] by blast
  qed
  from b [of 2] obtain st where
    "progress_rounds 2 0 hello_written = Some st" "map fst (reports (trace st)) = replicate 2 0"
    by blast
  then have c: "\<exists>st. progress_rounds 2 0 hello_written = Some st \<and>
         map fst (reports (trace st)) = [0, 0] \<and>
         \<not> sorted_wrt (<) (map fst (reports (trace st))) \<and>
         \<not> list_all (\<lambda>v. 0 < v) (map fst (reports (trace st)))"
    by (intro exI [of _ st]) (simp add: numeral_2_eq_2)
  have "progress_while 0 hello_written = None"
  proof (cases "progress_while 0 hello_written")
    case None
    then show ?thesis .
  next
    case (Some st')
    from progress_while_diverges [OF Some] l show ?thesis by simp
  qed
  then have d: "stream_loop 0 [Moment False (Data hello_record)] init_state = None"
    using a by (simp add: hello_record_def)
  show ?thesis using a b c d by blast
qed

text \<open>
  Claim C7, amended: with a positive progress interval, every run of the streaming loop,
  started as the code starts it (both counters zero, nothing reported yet), leaves the
  loop or waits in a read after finitely many steps, and in the state it is left in the
  values reported are strictly increasing positive multiples of the interval; each is
  at most the value \<^verbatim>\<open>total_written\<close> had when it was reported, which is at most the
  final \<^verbatim>\<open>total_written\<close> (so the last value is, too); and their number is the floor
  of the final \<^verbatim>\<open>total_written\<close> divided by the interval.
\<close>

theorem progress_notifications:
  assumes "0 < interval"
    and "total_written st0 = 0" and "last_report st0 = 0" and "reports (trace st0) = []"
  shows "\<exists>r st. stream_loop interval ms st0 = Some (r, st) \<and>
           sorted_wrt (<) (map fst (reports (trace st))) \<and>
           list_all (\<lambda>v. 0 < v \<and> interval dvd v) (map fst (reports (trace st))) \<and>
           list_all (\<lambda>p. fst p \<le> snd p \<and> snd p \<le> total_written st) (reports (trace st)) \<and>
           length (reports (trace st)) = nat (total_written st div interval)"
proof -
  from stream_loop_total [OF assms(1), of ms st0] obtain r st where
    s: "stream_loop interval ms st0 = Some (r, st)" by blast
  from reports_of_result [OF s assms(2-4)] s show ?thesis by blast
qed

theorem progress_notifications_witness:
  "\<exists>st. stream_loop 3 trickle init_state = Some (Returned, st) \<and>
        map fst (reports (trace st)) = [3, 6, 9, 12] \<and> total_written st = 14 \<and>
        sorted_wrt (<) (map fst (reports (trace st))) \<and>
        list_all (\<lambda>v. 0 < v \<and> 3 dvd v) (map fst (reports (trace st))) \<and>
        list_all (\<lambda>p. fst p \<le> snd p \<and> snd p \<le> total_written st) (reports (trace st)) \<and>
        length (reports (trace st)) = nat (total_written st div 3)"
proof -
  obtain st where run: "stream_loop 3 trickle init_state = Some (Returned, st)"
    and v: "map fst (reports (trace st)) = [3, 6, 9, 12]" "total_written st = 14"
    by (simp add: trickle_def eval_defs reports_def)
  have "\<exists>r st. stream_loop 3 trickle init_state = Some (r, st) \<and>
           sorted_wrt (<) (map fst (reports (trace st))) \<and>
           list_all (\<lambda>v. 0 < v \<and> 3 dvd v) (map fst (reports (trace st))) \<and>
           list_all (\<lambda>p. fst p \<le> snd p \<and> snd p \<le> total_written st) (reports (trace st)) \<and>
           length (reports (trace st)) = nat (total_written st div 3)"
    by (rule progress_notifications) (simp_all add: init_state_def reports_def)
  then show ?thesis using run v by (intro exI [of _ st]) auto
qed

section \<open>The session: claims\<close>

text \<open>
  A configuration and some environments: a device that refuses the first two connection
  attempts and then delivers two records; a device that is busy; a device that refuses
  every attempt; and a device that accepts the connection and delivers a given script.
\<close>

definition sample_config :: config where
  "sample_config = \<lparr>username = ''as'', base_name = ''backup 1'', full = False,
                     progress_interval = DEFAULT_PROGRESS_INTERVAL, connect_retries = 3\<rparr>"

definition refused_twice :: "int \<Rightarrow> exn option" where
  "refused_twice a = (if a < 3 then Some (TransportError 111) else None)"

definition header_bytes :: bytes where
  "header_bytes = [CHR 0x05, CHR 0x02] @ ''Bbackup_1.as'' @ [CHR 0x17]"

definition good_env :: env where
  "good_env = \<lparr>connects = refused_twice, sends = (\<lambda>k. None),
      moments = [Moment False (Data ''login:''), Moment False (Data ''AUX1''),
                 Moment False (Data header_bytes),
                 Moment False (Data (transport_stream two_records))]\<rparr>"

definition busy_env :: env where
  "busy_env = \<lparr>connects = (\<lambda>a. None), sends = (\<lambda>k. None),
      moments = [Moment False (Data ''login:''), Moment False (Data ''AUX1''),
                 Moment False (Data ''SAVE/LOAD in progress'')]\<rparr>"

definition refused_env :: env where
  "refused_env = \<lparr>connects = (\<lambda>a. Some (TransportError 111)), sends = (\<lambda>k. None), moments = []\<rparr>"

definition stalled_env :: "moment list \<Rightarrow> env" where
  "stalled_env ms = \<lparr>connects = (\<lambda>a. None), sends = (\<lambda>k. None), moments = ms\<rparr>"

lemmas run_defs =
  run_def connect_def session_def await_header_def after_header_def wait_for_def sendall_def
  emit_def search_login_def search_combined_def header_marker_def is_digit_def
  sanitize_def safe_alphabet_def save_command_def SAVELOAD_IN_PROGRESS_def START_HEADER_def
  ACK_BYTE_def SECOND_HEADER_def upto_rec1 Let_def

subsection \<open>The busy device\<close>

text \<open>
  Claim C4: when the wait for the header or the busy message returns a buffer that holds
  the busy message \<^verbatim>\<open>SAVE/LOAD in progress\<close> (as it does when this message was seen
  before the header), \<^verbatim>\<open>run\<close> raises the exception of the busy device, reports it and
  closes the socket, and the output artifact holds no byte.
\<close>

theorem busy_device_aborts_with_empty_output:
  assumes "connect cfg ev init_state = (None, st0)"
    and "await_header cfg ev st0 = Continue buf st ms"
    and "contains SAVELOAD_IN_PROGRESS buf"
  shows "\<exists>st'. run cfg ev = Some (Raised BackupInProgress, st') \<and> out_file st' = [] \<and>
           trace st' = trace st @ [Status InProgressAbort, Error BackupInProgress, SocketClosed]"
proof -
  have "session cfg ev st0 = Some (Raised BackupInProgress, emit (Status InProgressAbort) st)"
    using assms(2,3) by (simp add: session_def after_header_def)
  then have "run cfg ev = Some (Raised BackupInProgress,
      emit SocketClosed (emit (Error BackupInProgress) (emit (Status InProgressAbort) st)))"
    using assms(1) by (simp add: run_def)
  moreover have "out_file st = []" using await_header_out_file [OF assms(2)] by simp
  ultimately show ?thesis by simp
qed

theorem busy_device_aborts_with_empty_output_witness:
  "\<exists>st'. run sample_config busy_env = Some (Raised BackupInProgress, st') \<and> out_file st' = [] \<and>
         reports (trace st') = []"
proof -
  obtain st0 buf st ms where
    c: "connect sample_config busy_env init_state = (None, st0)"
    and a: "await_header sample_config busy_env st0 = Continue buf st ms"
    and b: "contains SAVELOAD_IN_PROGRESS buf" and t: "reports (trace st) = []"
    by (simp add: sample_config_def busy_env_def run_defs init_state_def reports_def)
  from busy_device_aborts_with_empty_output [OF c a b] t show ?thesis
    by (auto simp: reports_def)
qed

subsection \<open>Timeouts of the handshake\<close>

text \<open>
  A read of a wait step that times out is fatal: when the session is blocked in one of
  the three wait steps and the next read raises \<^verbatim>\<open>socket.timeout\<close>, \<^verbatim>\<open>run\<close> raises it,
  with the error reported once and the socket closed, whatever the script holds after
  this read (nothing is read again), and the output artifact is empty.
\<close>

theorem handshake_read_timeout_is_fatal:
  assumes "run cfg (ev\<lparr>moments := pre\<rparr>) = Some (Blocked ph, st)" and "ph \<noteq> Streaming"
    and "arrival m = RecvRaises SocketTimeout"
  shows "run cfg (ev\<lparr>moments := pre @ m # post\<rparr>)
           = Some (Raised SocketTimeout, emit SocketClosed (emit (Error SocketTimeout) st)) \<and>
         out_file st = []"
proof -
  from run_blocked [OF assms(1)] obtain st0 where
    c: "connect cfg ev init_state = (None, st0)"
    and s: "session cfg (ev\<lparr>moments := pre\<rparr>) st0 = Some (Blocked ph, st)"
    by auto
  from session_blocked [OF s assms(2)]
  have a: "await_header cfg (ev\<lparr>moments := pre\<rparr>) st0 = Stop (Blocked ph) st" .
  from await_header_blocked_raise [OF a assms(3), of post]
  have "session cfg (ev\<lparr>moments := pre @ m # post\<rparr>) st0 = Some (Raised SocketTimeout, st)"
    by (simp add: session_def)
  then have "run cfg (ev\<lparr>moments := pre @ m # post\<rparr>)
           = Some (Raised SocketTimeout, emit SocketClosed (emit (Error SocketTimeout) st))"
    using c by (simp add: run_def)
  moreover have "out_file st = []" using await_header_out_file [OF a] by simp
  ultimately show ?thesis by simp
qed

theorem handshake_read_timeout_is_fatal_witness:
  "\<exists>st. run sample_config
          (stalled_env [Moment False (Data ''login:''), Moment False (Data ''AU''),
                        Moment False (RecvRaises SocketTimeout), Moment False (Data ''X1'')])
        = Some (Raised SocketTimeout, emit SocketClosed (emit (Error SocketTimeout) st)) \<and>
        out_file st = []"
proof -
  let ?pre = "[Moment False (Data ''login:''), Moment False (Data ''AU'')]"
  let ?m = "Moment False (RecvRaises SocketTimeout)"
  obtain st where
    b: "run sample_config ((stalled_env [])\<lparr>moments := ?pre\<rparr>) = Some (Blocked AuxWait, st)"
    by (simp add: sample_config_def stalled_env_def run_defs init_state_def)
  from handshake_read_timeout_is_fatal [OF b, of ?m "[Moment False (Data ''X1'')]"]
  show ?thesis by (auto simp: stalled_env_def)
qed

text \<open>
  A peer that sends a byte every nine seconds, none of them part of the login prompt:
  every read returns within the ten seconds of \<^verbatim>\<open>recv_timeout\<close>.
\<close>

definition slow_reads :: "nat \<Rightarrow> (nat \<times> moment) list" where
  "slow_reads n = replicate n (9, Moment False (Data ''x''))"

lemma no_login_in_x: "set buf \<subseteq> {CHR ''x''} \<Longrightarrow> \<not> search_login buf"
  unfolding search_login_def by (auto dest!: contains_set)

lemma slow_reads_blocked:
  "set buf \<subseteq> {CHR ''x''} \<Longrightarrow>
   \<exists>st'. recv_until search_login buf st (map snd (slow_reads n)) = RecvBlocked st'"
proof (induction n arbitrary: buf st)
  case 0
  then show ?case by (simp add: slow_reads_def no_login_in_x)
next
  case (Suc n)
  have "set (buf @ ''x'') \<subseteq> {CHR ''x''}" using Suc.prems by simp
  from Suc.IH [OF this] Suc.prems show ?case
    by (simp add: slow_reads_def no_login_in_x)
qed

text \<open>
  Claim C5 says that every wait step has an absolute deadline, after which the wait
  fails. The docstrings say so too (\<^verbatim>\<open>wait for pattern up to timeout seconds\<close>), but
  \<^verbatim>\<open>_recv_until\<close> only sets the timeout of the socket, which bounds each read and not the
  wait: for every \<open>n\<close>, after \<open>n\<close> reads of nine seconds each the login prompt has not
  appeared, the wait has not failed, and when the prompt arrives then, the wait returns
  it. So no deadline holds.
\<close>

theorem no_absolute_deadline:
  "\<forall>n. list_all (\<lambda>p. fst p < 10) (slow_reads n) \<and> elapsed (slow_reads n) = 9 * n \<and>
       \<not> search_login (delivered (map snd (slow_reads n))) \<and>
       (\<exists>st'. recv_until search_login [] init_state (map snd (slow_reads n)) = RecvBlocked st') \<and>
       (\<exists>st'. recv_until search_login [] init_state
                (map snd (slow_reads n) @ [Moment False (Data ''login:'')])
              = RecvDone (delivered (map snd (slow_reads n)) @ ''login:'') st' [])"
proof
  fix n
  have d: "delivered (map snd (slow_reads n)) = replicate n (CHR ''x'')"
    by (induction n) (simp_all add: slow_reads_def delivered_def chunk_of_def)
  have 1: "list_all (\<lambda>p. fst p < 10) (slow_reads n)"
    by (simp add: slow_reads_def list_all_iff)
  have 2: "elapsed (slow_reads n) = 9 * n"
    by (simp add: slow_reads_def elapsed_def sum_list_replicate)
  have 3: "\<not> search_login (delivered (map snd (slow_reads n)))"
    unfolding d by (rule no_login_in_x) auto
  obtain st' where 4: "recv_until search_login [] init_state (map snd (slow_reads n)) = RecvBlocked st'"
    using slow_reads_blocked [of "[]" init_state n] by auto
  have l: "search_login (delivered (map snd (slow_reads n)) @ ''login:'')"
    unfolding search_login_def contains_iff by (metis append_Nil2)
  have "recv_until search_login [] init_state
          (map snd (slow_reads n) @ [Moment False (Data ''login:'')])
        = recv_until search_login (delivered (map snd (slow_reads n)))
            st' [Moment False (Data ''login:'')]"
    using recv_until_blocked_extend [OF 4, of "[Moment False (Data ''login:'')]"] by simp
  also have "\<dots> = RecvDone (delivered (map snd (slow_reads n)) @ ''login:'')
                      (st'\<lparr>dbg_file := dbg_file st' @ ''login:''\<rparr>) []"
    using 3 l by simp
  finally have 5: "\<exists>st'. recv_until search_login [] init_state
                (map snd (slow_reads n) @ [Moment False (Data ''login:'')])
              = RecvDone (delivered (map snd (slow_reads n)) @ ''login:'') st' []"
    by blast
  show "list_all (\<lambda>p. fst p < 10) (slow_reads n) \<and> elapsed (slow_reads n) = 9 * n \<and>
       \<not> search_login (delivered (map snd (slow_reads n))) \<and>
       (\<exists>st'. recv_until search_login [] init_state (map snd (slow_reads n)) = RecvBlocked st') \<and>
       (\<exists>st'. recv_until search_login [] init_state
                (map snd (slow_reads n) @ [Moment False (Data ''login:'')])
              = RecvDone (delivered (map snd (slow_reads n)) @ ''login:'') st' [])"
    using 1 2 3 4 5 by blast
qed

subsection \<open>Connecting\<close>

text \<open>
  Claim C8: let attempt \<open>n\<close> be the first that succeeds, or the last one allowed when all
  fail (\<open>n\<close> is at most \<^verbatim>\<open>connect_retries\<close>). Then the connect loop makes exactly the
  attempts \<open>1, \<dots>, n\<close>; each emits the status with its number; each of the failed
  attempts before \<open>n\<close> is followed by the retry status and the sleep; and a failure of
  attempt \<open>n\<close> is reported and raised by \<^verbatim>\<open>run\<close> as it is, with no further attempt,
  while after a success the session goes on. The witness has the scenario of the
  specification: two failures, then success, with \<^verbatim>\<open>connect_retries = 3\<close>.
\<close>

theorem connect_retry_policy:
  assumes "1 \<le> n" and "n \<le> connect_retries cfg"
    and "\<forall>a\<in>{1..<n}. connects ev a \<noteq> None"
    and "connects ev n = None \<or> n = connect_retries cfg"
  shows "connect cfg ev st =
           (connects ev n,
            st\<lparr>trace := trace st @ concat (map retry_effects [1..n - 1]) @ [Status (Connecting n)]
                   @ (case connects ev n of None \<Rightarrow> [] | Some e \<Rightarrow> [Error e])\<rparr>) \<and>
         (\<forall>e. connects ev n = Some e \<longrightarrow>
            run cfg ev = Some (Raised e, init_state\<lparr>trace :=
                concat (map retry_effects [1..n - 1]) @ [Status (Connecting n), Error e]\<rparr>)) \<and>
         (\<forall>st'. connects ev n = None \<and>
            session cfg ev (init_state\<lparr>trace :=
                concat (map retry_effects [1..n - 1]) @ [Status (Connecting n)]\<rparr>)
              = Some (Returned, st') \<longrightarrow>
            run cfg ev = Some (Returned, emit SocketClosed st'))"
proof -
  have c: "connect cfg ev s =
           (connects ev n,
            s\<lparr>trace := trace s @ concat (map retry_effects [1..n - 1]) @ [Status (Connecting n)]
                   @ (case connects ev n of None \<Rightarrow> [] | Some e \<Rightarrow> [Error e])\<rparr>)" for s
    by (rule connect_closed_form [OF assms])
  have t: "trace init_state = []" by (simp add: init_state_def)
  show ?thesis
    using c [of st] c [of init_state] t by (auto simp: run_def)
qed

theorem connect_retry_policy_witness:
  "connect sample_config good_env init_state
     = (None, init_state\<lparr>trace :=
          [Status (Connecting 1), Status ConnectRetry, SleepRetry,
           Status (Connecting 2), Status ConnectRetry, SleepRetry, Status (Connecting 3)]\<rparr>) \<and>
   (\<exists>st. run sample_config good_env = Some (Returned, st) \<and>
         length (filter (\<lambda>e. e = Status ConnectRetry) (trace st)) = 2 \<and>
         out_file st = ''hello'' @ [CR, LF] @ ''world'' @ [CR, LF]) \<and>
   run sample_config refused_env
     = Some (Raised (TransportError 111), init_state\<lparr>trace :=
          [Status (Connecting 1), Status ConnectRetry, SleepRetry,
           Status (Connecting 2), Status ConnectRetry, SleepRetry, Status (Connecting 3),
           Error (TransportError 111)]\<rparr>)"
proof -
  have r: "[1..(3::int) - 1] = [1, 2]" "[1..(2::int)] = [1, 2]" by (simp_all add: upto_rec1)
  note g = connect_retry_policy [of 3 sample_config good_env init_state]
  have pre: "1 \<le> (3::int)" "3 \<le> connect_retries sample_config"
    "\<forall>a\<in>{1..<3}. connects good_env a \<noteq> None"
    "connects good_env 3 = None \<or> 3 = connect_retries sample_config"
    by (simp_all add: sample_config_def good_env_def refused_twice_def)
  have 1: "connect sample_config good_env init_state
     = (None, init_state\<lparr>trace :=
          [Status (Connecting 1), Status ConnectRetry, SleepRetry,
           Status (Connecting 2), Status ConnectRetry, SleepRetry, Status (Connecting 3)]\<rparr>)"
    using g [OF pre, THEN conjunct1]
    by (simp add: good_env_def refused_twice_def retry_effects_def r init_state_def)
  obtain st' where s: "session sample_config good_env (init_state\<lparr>trace :=
                concat (map retry_effects [1..3 - 1]) @ [Status (Connecting 3)]\<rparr>)
              = Some (Returned, st')"
    and v: "length (filter (\<lambda>e. e = Status ConnectRetry) (trace st')) = 2"
      "out_file st' = ''hello'' @ [CR, LF] @ ''world'' @ [CR, LF]"
    by (simp add: r retry_effects_def sample_config_def good_env_def refused_twice_def
        header_bytes_def two_records_def run_defs stream_defs eval_defs)
  have "run sample_config good_env = Some (Returned, emit SocketClosed st')"
    using g [OF pre, THEN conjunct2, THEN conjunct2] s
    by (simp add: good_env_def refused_twice_def)
  then have 2: "\<exists>st. run sample_config good_env = Some (Returned, st) \<and>
         length (filter (\<lambda>e. e = Status ConnectRetry) (trace st)) = 2 \<and>
         out_file st = ''hello'' @ [CR, LF] @ ''world'' @ [CR, LF]"
    using v by simp
  have pre': "1 \<le> (3::int)" "3 \<le> connect_retries sample_config"
    "\<forall>a\<in>{1..<3}. connects refused_env a \<noteq> None"
    "connects refused_env 3 = None \<or> 3 = connect_retries sample_config"
    by (simp_all add: sample_config_def refused_env_def)
  have 3: "run sample_config refused_env
     = Some (Raised (TransportError 111), init_state\<lparr>trace :=
          [Status (Connecting 1), Status ConnectRetry, SleepRetry,
           Status (Connecting 2), Status ConnectRetry, SleepRetry, Status (Connecting 3),
           Error (TransportError 111)]\<rparr>)"
    using connect_retry_policy [OF pre', of init_state, THEN conjunct2, THEN conjunct1]
    by (simp add: refused_env_def retry_effects_def r)
  show ?thesis using 1 2 3 by blast
qed

subsection \<open>The bytes on the wire\<close>

text \<open>
  Claim C9 gives the command as \<^verbatim>\<open>SAVE<CRLF>\<close> or \<^verbatim>\<open>SAVE/Full<CRLF>\<close> followed by a
  space, the sanitized base name and CRLF. The code sends no line break after the
  keyword: for the base name \<^verbatim>\<open>backup 1\<close> the command is \<^verbatim>\<open>SAVE backup_1<CRLF>\<close>.
\<close>

theorem command_has_no_line_break_after_keyword:
  "(\<exists>st. run sample_config busy_env = Some (Raised BackupInProgress, st) \<and>
         sent_of (trace st) = [''as'' @ [CR, LF], ''SAVE backup_1'' @ [CR, LF]]) \<and>
   claimed_command sample_config = ''SAVE'' @ [CR, LF] @ '' backup_1'' @ [CR, LF] \<and>
   save_command sample_config \<noteq> claimed_command sample_config \<and>
   save_command (sample_config\<lparr>full := True\<rparr>) = ''SAVE/Full backup_1'' @ [CR, LF] \<and>
   save_command (sample_config\<lparr>full := True\<rparr>)
     \<noteq> claimed_command (sample_config\<lparr>full := True\<rparr>)"
  by (simp add: sample_config_def busy_env_def run_defs init_state_def claimed_command_def)

text \<open>
  Claim C9, amended: the command sent on the wire is exactly \<^verbatim>\<open>SAVE\<close> or
  \<^verbatim>\<open>SAVE/Full\<close> (the full-mode flag selects), a space, the sanitized base name and a
  final CRLF. In every run the byte strings sent are, in order, an initial part of: the
  user name with CRLF, this command, the acknowledgement byte, the secondary header. The
  sanitized name has the length of the base name and only characters of
  \<^verbatim>\<open>[A-Za-z0-9_.-]\<close>.
\<close>

theorem bytes_on_the_wire:
  assumes "run cfg ev = Some (r, st)"
  shows "sent_of (trace st)
           = take (length (sent_of (trace st)))
               [username cfg @ [CR, LF],
                ''SAVE'' @ (if full cfg then ''/Full'' else []) @ '' '' @ sanitize (base_name cfg)
                  @ [CR, LF],
                ACK_BYTE, SECOND_HEADER] \<and>
         set (sanitize (base_name cfg)) \<subseteq> set safe_alphabet \<and>
         length (sanitize (base_name cfg)) = length (base_name cfg)"
proof -
  obtain c s0 where c: "connect cfg ev init_state = (c, s0)" by (cases "connect cfg ev init_state")
  have s0: "sent_of (trace s0) = []"
    using connect_loop_sent [OF c [unfolded connect_def]] by (simp add: init_state_def)
  have "on_wire cfg st"
  proof (cases c)
    case (Some e)
    then have "st = s0" using assms c by (simp add: run_def)
    then show ?thesis using s0 by (simp add: on_wire_def)
  next
    case None
    then obtain r' st' where s: "session cfg ev s0 = Some (r', st')"
      and f: "sent_of (trace st) = sent_of (trace st')"
      using assms c by (auto simp: run_def split: option.splits outcome.splits)
    have "on_wire cfg st'"
    proof (cases "await_header cfg ev s0")
      case (Continue b s1 rest)
      with await_header_sent(1) [OF s0 Continue] after_header_sent [of cfg ev b s1 rest r' st'] s
      show ?thesis by (simp add: session_def)
    next
      case (Stop r1 s1)
      with await_header_sent(2) [OF s0 Stop] s show ?thesis by (simp add: session_def)
    qed
    then show ?thesis using f by (simp add: on_wire_def)
  qed
  then have "sent_of (trace st)
           = take (length (sent_of (trace st)))
               [username cfg @ [CR, LF],
                ''SAVE'' @ (if full cfg then ''/Full'' else []) @ '' '' @ sanitize (base_name cfg)
                  @ [CR, LF],
                ACK_BYTE, SECOND_HEADER]"
    by (simp add: on_wire_def wire_def)
  moreover have "set (sanitize (base_name cfg)) \<subseteq> set safe_alphabet"
    by (auto simp: sanitize_def safe_alphabet_def)
  moreover have "length (sanitize (base_name cfg)) = length (base_name cfg)"
    by (simp add: sanitize_def)
  ultimately show ?thesis by blast
qed

theorem bytes_on_the_wire_witness:
  "\<exists>st. run sample_config good_env = Some (Returned, st) \<and>
        sent_of (trace st)
          = [''as'' @ [CR, LF], ''SAVE backup_1'' @ [CR, LF], ACK_BYTE, SECOND_HEADER]"
proof -
  obtain st where r: "run sample_config good_env = Some (Returned, st)"
    and l: "length (sent_of (trace st)) = 4"
    by (simp add: sample_config_def good_env_def refused_twice_def header_bytes_def
        two_records_def run_defs stream_defs eval_defs)
  from bytes_on_the_wire [OF r] l r show ?thesis
    by (simp add: sample_config_def sanitize_def safe_alphabet_def)
qed

subsection \<open>A connection closed during the handshake\<close>

text \<open>
  Claim C10: when a read returns no bytes while a wait step is still searching for its
  marker, \<^verbatim>\<open>_recv_until\<close> returns the bytes accumulated so far, without the marker and
  without an error, and the engine goes on to the next phase: from the login wait to the
  AUX wait, from the AUX wait (the command sent) to the header wait, from the header
  wait (acknowledgement and secondary header sent) into the streaming loop.
\<close>

theorem closed_connection_completes_wait_step:
  assumes "arrival m = Data []"
  shows "(recv_until pat buf st0 pre = RecvBlocked st1 \<longrightarrow>
            \<not> pat (buf @ delivered pre) \<and>
            recv_until pat buf st0 (pre @ m # post) = RecvDone (buf @ delivered pre) st1 post) \<and>
         (run cfg (ev\<lparr>moments := pre\<rparr>) = Some (Blocked LoginWait, st) \<longrightarrow>
            run cfg (ev\<lparr>moments := pre @ [m]\<rparr>)
              = Some (Blocked AuxWait, emit (Status WaitingAux) st)) \<and>
         (run cfg (ev\<lparr>moments := pre\<rparr>) = Some (Blocked AuxWait, st) \<and> sends ev 1 = None \<longrightarrow>
            run cfg (ev\<lparr>moments := pre @ [m]\<rparr>)
              = Some (Blocked HeaderWait,
                      emit (Status WaitingHeader) (emit (Sent (save_command cfg))
                        (emit (Status IssuingSave) st)))) \<and>
         (run cfg (ev\<lparr>moments := pre\<rparr>) = Some (Blocked HeaderWait, st) \<and>
          sends ev 2 = None \<and> sends ev 3 = None \<longrightarrow>
            run cfg (ev\<lparr>moments := pre @ [m]\<rparr>)
              = Some (Blocked Streaming,
                      (emit (Status ReceivingRecords) (emit (Sent SECOND_HEADER) (emit SleepAck
                        (emit (Sent ACK_BYTE) (emit (Status HandshakeAck) st)))))
                      \<lparr>buffer := [], total_written := 0, last_report := 0\<rparr>))"
proof -
  have 1: "recv_until pat buf st0 pre = RecvBlocked st1 \<longrightarrow>
            \<not> pat (buf @ delivered pre) \<and>
            recv_until pat buf st0 (pre @ m # post) = RecvDone (buf @ delivered pre) st1 post"
    using recv_until_blocked_closed_buffer [OF _ assms] by blast
  have 2: "run cfg (ev\<lparr>moments := pre @ [m]\<rparr>)
              = Some (Blocked AuxWait, emit (Status WaitingAux) st)"
    if r: "run cfg (ev\<lparr>moments := pre\<rparr>) = Some (Blocked LoginWait, st)"
  proof -
    from run_blocked [OF r] obtain s0 where
      c: "connect cfg ev init_state = (None, s0)"
      and s: "session cfg (ev\<lparr>moments := pre\<rparr>) s0 = Some (Blocked LoginWait, st)"
      by auto
    from session_blocked [OF s] have
      "await_header cfg (ev\<lparr>moments := pre\<rparr>) s0 = Stop (Blocked LoginWait) st" by simp
    from await_header_login_closed [OF this assms] c show ?thesis
      by (simp add: run_def session_def)
  qed
  have 3: "run cfg (ev\<lparr>moments := pre @ [m]\<rparr>)
              = Some (Blocked HeaderWait,
                      emit (Status WaitingHeader) (emit (Sent (save_command cfg))
                        (emit (Status IssuingSave) st)))"
    if r: "run cfg (ev\<lparr>moments := pre\<rparr>) = Some (Blocked AuxWait, st)" and s1: "sends ev 1 = None"
  proof -
    from run_blocked [OF r] obtain s0 where
      c: "connect cfg ev init_state = (None, s0)"
      and s: "session cfg (ev\<lparr>moments := pre\<rparr>) s0 = Some (Blocked AuxWait, st)"
      by auto
    from session_blocked [OF s] have
      "await_header cfg (ev\<lparr>moments := pre\<rparr>) s0 = Stop (Blocked AuxWait) st" by simp
    from await_header_aux_closed [OF this assms] s1 c show ?thesis
      by (simp add: run_def session_def)
  qed
  have 4: "run cfg (ev\<lparr>moments := pre @ [m]\<rparr>)
              = Some (Blocked Streaming,
                      (emit (Status ReceivingRecords) (emit (Sent SECOND_HEADER) (emit SleepAck
                        (emit (Sent ACK_BYTE) (emit (Status HandshakeAck) st)))))
                      \<lparr>buffer := [], total_written := 0, last_report := 0\<rparr>)"
    if r: "run cfg (ev\<lparr>moments := pre\<rparr>) = Some (Blocked HeaderWait, st)"
      and s2: "sends ev 2 = None" and s3: "sends ev 3 = None"
  proof -
    from run_blocked [OF r] obtain s0 where
      c: "connect cfg ev init_state = (None, s0)"
      and s: "session cfg (ev\<lparr>moments := pre\<rparr>) s0 = Some (Blocked HeaderWait, st)"
      by auto
    from session_blocked [OF s] have
      "await_header cfg (ev\<lparr>moments := pre\<rparr>) s0 = Stop (Blocked HeaderWait) st" by simp
    from await_header_header_closed [OF this assms] obtain b where
      "\<not> contains SAVELOAD_IN_PROGRESS b"
      "await_header cfg (ev\<lparr>moments := pre @ [m]\<rparr>) s0 = Continue b st []"
      by blast
    then show ?thesis using c s2 s3
      by (simp add: run_def session_def after_header_def sendall_def Let_def)
  qed
  show ?thesis using 1 2 3 4 by blast
qed

theorem closed_connection_completes_wait_step_witness:
  "\<not> search_login ''log'' \<and>
   recv_until search_login [] init_state [Moment False (Data ''log''), Moment False (Data [])]
     = RecvDone ''log'' (init_state\<lparr>dbg_file := ''log''\<rparr>) [] \<and>
   map_option fst (run sample_config
       (stalled_env [Moment False (Data ''log''), Moment False (Data [])]))
     = Some (Blocked AuxWait) \<and>
   map_option fst (run sample_config
       (stalled_env [Moment False (Data ''login:''), Moment False (Data ''AU''),
                     Moment False (Data [])]))
     = Some (Blocked HeaderWait) \<and>
   map_option fst (run sample_config
       (stalled_env [Moment False (Data ''login:''), Moment False (Data ''AUX1''),
                     Moment False (Data START_HEADER), Moment False (Data [])]))
     = Some (Blocked Streaming)"
proof -
  let ?z = "Moment False (Data [])"
  let ?ev = "stalled_env []"
  have z: "arrival ?z = Data []" by simp
  note step = closed_connection_completes_wait_step [OF z]
  have "recv_until search_login [] init_state [Moment False (Data ''log'')]
          = RecvBlocked (init_state\<lparr>dbg_file := ''log''\<rparr>)"
    by (simp add: search_login_def init_state_def)
  with step [of search_login "[]" init_state "[Moment False (Data ''log'')]" _ "[]"]
  have 1: "\<not> search_login ''log'' \<and>
     recv_until search_login [] init_state [Moment False (Data ''log''), ?z]
       = RecvDone ''log'' (init_state\<lparr>dbg_file := ''log''\<rparr>) []"
    by (simp add: delivered_def chunk_of_def del: recv_until.simps)
  obtain s2 where "run sample_config (?ev\<lparr>moments := [Moment False (Data ''log'')]\<rparr>)
      = Some (Blocked LoginWait, s2)"
    by (simp add: sample_config_def stalled_env_def run_defs init_state_def)
  with step [of _ _ _ "[Moment False (Data ''log'')]" _ _ sample_config ?ev s2]
  have 2: "map_option fst (run sample_config (stalled_env [Moment False (Data ''log''), ?z]))
      = Some (Blocked AuxWait)"
    by (simp add: stalled_env_def)
  obtain s3 where "run sample_config
       (?ev\<lparr>moments := [Moment False (Data ''login:''), Moment False (Data ''AU'')]\<rparr>)
      = Some (Blocked AuxWait, s3)"
    by (simp add: sample_config_def stalled_env_def run_defs init_state_def)
  with step [of _ _ _ "[Moment False (Data ''login:''), Moment False (Data ''AU'')]" _ _
      sample_config ?ev s3]
  have 3: "map_option fst (run sample_config
       (stalled_env [Moment False (Data ''login:''), Moment False (Data ''AU''), ?z]))
      = Some (Blocked HeaderWait)"
    by (simp add: stalled_env_def)
  obtain s4 where "run sample_config
       (?ev\<lparr>moments := [Moment False (Data ''login:''), Moment False (Data ''AUX1''),
                         Moment False (Data START_HEADER)]\<rparr>)
      = Some (Blocked HeaderWait, s4)"
    by (simp add: sample_config_def stalled_env_def run_defs init_state_def)
  with step [of _ _ _ "[Moment False (Data ''login:''), Moment False (Data ''AUX1''),
                         Moment False (Data START_HEADER)]" _ _ sample_config ?ev s4]
  have 4: "map_option fst (run sample_config
       (stalled_env [Moment False (Data ''login:''), Moment False (Data ''AUX1''),
                     Moment False (Data START_HEADER), ?z]))
      = Some (Blocked Streaming)"
    by (simp add: stalled_env_def)
  show ?thesis using 1 2 3 4 by simp
qed

end
